theory Spec2Isabelle
  imports Main "HOL-Library.Sublist"
begin

section \<open>Text\<close>

text \<open>
  A Python \<open>str\<close> is a sequence of Unicode code points, so a string of the program is a
  list of code points. ASCII literals are written through \<open>u\<close>; the other characters of
  the program (U+25A0, U+FF5C, the two marker tokens) are given by their code points.
\<close>

type_synonym ustr = "nat list"

definition u :: "string \<Rightarrow> ustr" where
  "u s = map of_char s"

text \<open>
  \<open>str.isspace\<close>, which is also the class \<open>\s\<close> of \<open>re\<close> on \<open>str\<close> patterns and the set that
  \<open>str.strip()\<close> removes.
\<close>

definition isspace :: "nat \<Rightarrow> bool" where
  "isspace c \<longleftrightarrow>
     (0x09 \<le> c \<and> c \<le> 0x0D) \<or> (0x1C \<le> c \<and> c \<le> 0x20) \<or> c = 0x85 \<or> c = 0xA0 \<or>
     c = 0x1680 \<or> (0x2000 \<le> c \<and> c \<le> 0x200A) \<or> c = 0x2028 \<or> c = 0x2029 \<or>
     c = 0x202F \<or> c = 0x205F \<or> c = 0x3000"

definition strip :: "ustr \<Rightarrow> ustr" where
  "strip s = rev (dropWhile isspace (rev (dropWhile isspace s)))"

definition startswith :: "ustr \<Rightarrow> ustr \<Rightarrow> bool" where
  "startswith s p \<longleftrightarrow> prefix p s"

text \<open>\<open>x in s\<close> on strings: \<open>x\<close> occurs in \<open>s\<close> as a contiguous substring.\<close>

fun contains :: "ustr \<Rightarrow> ustr \<Rightarrow> bool" where
  "contains [] x = (x = [])"
| "contains (c # cs) x = (prefix x (c # cs) \<or> contains cs x)"

text \<open>\<open>str(n)\<close> for a length.\<close>

fun str_nat :: "nat \<Rightarrow> ustr" where
  "str_nat n = (if n < 10 then [48 + n] else str_nat (n div 10) @ [48 + n mod 10])"

declare str_nat.simps [simp del]

section \<open>Regular expressions of the program\<close>

text \<open>
  The entry pattern is a sequence of single characters and of repetitions of a character
  class. \<open>rx_match\<close> is the backtracking matcher of \<open>re\<close> for such sequences, applied at
  the start of the string as \<open>Pattern.match\<close> does. The rest of the pattern is the
  continuation \<open>k\<close>: a greedy repetition first takes one more character and comes back to
  the continuation only when that fails; a lazy one first tries the continuation and
  takes one more character only when that fails. Nothing is required of the text after
  the match. The groups are collected in the order they close.
\<close>

datatype cclass = Chr nat | Space | Dot | OneOf "nat list"

fun in_class :: "cclass \<Rightarrow> nat \<Rightarrow> bool" where
  "in_class (Chr a) c = (c = a)"
| "in_class Space c = isspace c"
| "in_class Dot c = (c \<noteq> 10)"
| "in_class (OneOf as) c = (c \<in> set as)"

datatype rx = One cclass | Star cclass | Plus cclass | LazyGroup cclass

fun greedy :: "(ustr \<Rightarrow> 'a option) \<Rightarrow> cclass \<Rightarrow> ustr \<Rightarrow> 'a option" where
  "greedy k c [] = k []"
| "greedy k c (x # s) =
     (if in_class c x
      then (case greedy k c s of Some r \<Rightarrow> Some r | None \<Rightarrow> k (x # s))
      else k (x # s))"

fun lazy :: "(ustr \<Rightarrow> ustr \<Rightarrow> 'a option) \<Rightarrow> cclass \<Rightarrow> ustr \<Rightarrow> ustr \<Rightarrow> 'a option" where
  "lazy k c taken [] = None"
| "lazy k c taken (x # s) =
     (if in_class c x
      then (case k (taken @ [x]) s of Some r \<Rightarrow> Some r | None \<Rightarrow> lazy k c (taken @ [x]) s)
      else None)"

fun rx_match :: "rx list \<Rightarrow> ustr \<Rightarrow> ustr list \<Rightarrow> ustr list option" where
  "rx_match [] s groups = Some groups"
| "rx_match (One c # rs) [] groups = None"
| "rx_match (One c # rs) (x # s) groups =
     (if in_class c x then rx_match rs s groups else None)"
| "rx_match (Star c # rs) s groups = greedy (\<lambda>s'. rx_match rs s' groups) c s"
| "rx_match (Plus c # rs) [] groups = None"
| "rx_match (Plus c # rs) (x # s) groups =
     (if in_class c x then greedy (\<lambda>s'. rx_match rs s' groups) c s else None)"
| "rx_match (LazyGroup c # rs) s groups =
     lazy (\<lambda>taken s'. rx_match rs s' (groups @ [taken])) c [] s"

text \<open>
  \<^verbatim>\<open>^\s*\*\*<U+25A0>\s+(?P<jp_name>.+?)\s*\((?P<en_name>.+?)\)\s*[<U+FF5C>|]\<close>
\<close>

definition pattern :: "rx list" where
  "pattern =
     [Star Space, One (Chr 42), One (Chr 42), One (Chr 0x25A0), Plus Space,
      LazyGroup Dot, Star Space, One (Chr 40), LazyGroup Dot, One (Chr 41),
      Star Space, One (OneOf [0xFF5C, 124])]"

text \<open>\<open>self.pattern.match(line)\<close>, with the groups \<open>jp_name\<close> and \<open>en_name\<close>.\<close>

definition pattern_match :: "ustr \<Rightarrow> (ustr \<times> ustr) option" where
  "pattern_match line =
     (case rx_match pattern line [] of
        Some [jp_name, en_name] \<Rightarrow> Some (jp_name, en_name)
      | _ \<Rightarrow> None)"

section \<open>The outside world\<close>

text \<open>
  Everything the program does to the outside is an event of a trace: a line printed, a
  request sent, a file written. The replies of the three remote services are parameters:
  for a request, either the exception that the guarded block raised, or the value it
  computed from the reply.
\<close>

record payload =
  p_title :: ustr
  p_content :: ustr
  p_status :: ustr

datatype event =
    Print ustr
  | WikimediaGet ustr
  | BooksGet ustr
  | FileWrite ustr ustr
  | HttpPost ustr payload "ustr option \<times> ustr option"

datatype 'a reply = Raised ustr | Returned 'a

datatype post_reply = Created ustr | PostRaised ustr "ustr option"

record services =
  wikimedia :: "ustr \<Rightarrow> ustr option reply"
  google_books :: "ustr \<Rightarrow> ustr option reply"
  wordpress :: "ustr \<Rightarrow> payload \<Rightarrow> post_reply"

type_synonym files = "ustr \<rightharpoonup> ustr"

section \<open>ImageFetcher\<close>

text \<open>
  \<open>fetch_wikimedia_image\<close> and \<open>fetch_google_books_image\<close>: announce the search, send the
  request, and return the URL found or \<open>None\<close>; an exception is printed and gives \<open>None\<close>.
\<close>

definition fetch_wikimedia_image :: "services \<Rightarrow> ustr \<Rightarrow> ustr option \<times> event list" where
  "fetch_wikimedia_image sv query =
     (case wikimedia sv query of
        Returned r \<Rightarrow>
          (r, [Print (u ''Searching Wikimedia for: '' @ query), WikimediaGet query])
      | Raised e \<Rightarrow>
          (None, [Print (u ''Searching Wikimedia for: '' @ query), WikimediaGet query,
                  Print (u ''Error fetching from Wikimedia: '' @ e)]))"

definition fetch_google_books_image :: "services \<Rightarrow> ustr \<Rightarrow> ustr option \<times> event list" where
  "fetch_google_books_image sv query =
     (case google_books sv query of
        Returned r \<Rightarrow>
          (r, [Print (u ''Searching Google Books for: '' @ query), BooksGet query])
      | Raised e \<Rightarrow>
          (None, [Print (u ''Searching Google Books for: '' @ query), BooksGet query,
                  Print (u ''Error fetching from Google Books: '' @ e)]))"

text \<open>Truth value of \<open>image_url\<close>: \<open>None\<close> and the empty string are false.\<close>

definition truthy :: "ustr option \<Rightarrow> bool" where
  "truthy r = (case r of None \<Rightarrow> False | Some s \<Rightarrow> s \<noteq> [])"

text \<open>The element appended for an image: one string holding the reference and a blank line.\<close>

definition image_line :: "ustr \<Rightarrow> ustr \<Rightarrow> ustr \<Rightarrow> ustr" where
  "image_line jp_name en_name image_url =
     u ''!['' @ jp_name @ u '' ('' @ en_name @ u '')]('' @ image_url @ u '')'' @ [10, 10]"

text \<open>
  The idempotency check \<open>i < len(lines) and lines[i].strip().startswith("![")\<close>, read on
  the list \<open>rest\<close> of the lines after the current one: there is a next line, and it is an
  image reference. The loop below makes the same check by index, in \<open>image_present\<close>.
\<close>

definition image_follows :: "ustr list \<Rightarrow> bool" where
  "image_follows rest =
     (case rest of [] \<Rightarrow> False | nxt # _ \<Rightarrow> startswith (strip nxt) (u ''![''))"

text \<open>
  Lines 141 to 153: the search for the image of a marker line with no image under it.
  Source A is asked first, source B only when A gave nothing; the result is the element to
  append to \<open>new_lines\<close>, if any, and the events.
\<close>

definition lookup_image :: "services \<Rightarrow> ustr \<Rightarrow> ustr \<Rightarrow> ustr list \<times> event list" where
  "lookup_image sv jp_name en_name =
     (let (url_a, ev_a) = fetch_wikimedia_image sv en_name;
          (image_url, ev_b) =
            (if \<not> truthy url_a then fetch_google_books_image sv en_name else (url_a, []))
      in if truthy image_url
         then ([image_line jp_name en_name (case image_url of Some url \<Rightarrow> url | None \<Rightarrow> [])],
               [Print (u ''Found photographer: '' @ en_name)] @ ev_a @ ev_b @
               [Print (u ''Found image: '' @ (case image_url of Some url \<Rightarrow> url | None \<Rightarrow> []))])
         else ([],
               [Print (u ''Found photographer: '' @ en_name)] @ ev_a @ ev_b @
               [Print (u ''No image found for '' @ en_name)]))"

text \<open>\<open>lines[i]\<close> raises \<open>IndexError\<close> out of range; \<open>a and b\<close> evaluates \<open>b\<close> only if \<open>a\<close> holds.\<close>

datatype py_error = IndexError

definition getitem :: "'a list \<Rightarrow> nat \<Rightarrow> py_error + 'a" where
  "getitem xs i = (if i < length xs then Inr (xs ! i) else Inl IndexError)"

definition image_present :: "ustr list \<Rightarrow> nat \<Rightarrow> py_error + bool" where
  "image_present lines i =
     (if i < length lines
      then (case getitem lines i of
              Inl e \<Rightarrow> Inl e
            | Inr nxt \<Rightarrow> Inr (startswith (strip nxt) (u ''!['')))
      else Inr False)"

text \<open>
  The loop of \<open>process_file\<close>, from the state \<open>i\<close>, \<open>new_lines\<close> and the events so far. The
  source increments \<open>i\<close> before the look-ahead, which therefore reads index \<open>i + 1\<close> here.
\<close>

function process_loop ::
  "services \<Rightarrow> ustr list \<Rightarrow> nat \<Rightarrow> ustr list \<Rightarrow> event list \<Rightarrow> py_error + ustr list \<times> event list"
where
  "process_loop sv lines i new_lines evs =
     (if i < length lines then
        (case getitem lines i of
           Inl e \<Rightarrow> Inl e
         | Inr line \<Rightarrow>
             (case pattern_match line of
                None \<Rightarrow> process_loop sv lines (i + 1) (new_lines @ [line]) evs
              | Some (jp_name, en_name) \<Rightarrow>
                  (case image_present lines (i + 1) of
                     Inl e \<Rightarrow> Inl e
                   | Inr True \<Rightarrow>
                       process_loop sv lines (i + 1) (new_lines @ [line])
                         (evs @ [Print (u ''Skipping '' @ en_name @ u '', image already present.'')])
                   | Inr False \<Rightarrow>
                       (let (added, ev) = lookup_image sv jp_name en_name
                        in process_loop sv lines (i + 1) (new_lines @ [line] @ added) (evs @ ev)))))
      else Inr (new_lines, evs))"
  by pat_completeness auto
termination
  by (relation "measure (\<lambda>(sv, lines, i, new_lines, evs). length lines - i)") auto

declare process_loop.simps [simp del]

text \<open>
  Reading in text mode translates \<open>\r\n\<close> and \<open>\r\<close> to \<open>\n\<close>; \<open>readlines\<close> cuts after each
  \<open>\n\<close> and keeps it. Writing on a POSIX system leaves \<open>\n\<close> as it is, and \<open>writelines\<close>
  writes the elements one after the other.
\<close>

fun universal_newlines :: "ustr \<Rightarrow> ustr" where
  "universal_newlines [] = []"
| "universal_newlines [c] = (if c = 13 then [10] else [c])"
| "universal_newlines (c # d # cs) =
     (if c = 13 \<and> d = 10 then 10 # universal_newlines cs
      else if c = 13 then 10 # universal_newlines (d # cs)
      else c # universal_newlines (d # cs))"

fun split_lines :: "ustr \<Rightarrow> ustr \<Rightarrow> ustr list" where
  "split_lines cur [] = (if cur = [] then [] else [cur])"
| "split_lines cur (c # cs) =
     (if c = 10 then (cur @ [c]) # split_lines [] cs else split_lines (cur @ [c]) cs)"

definition readlines :: "ustr \<Rightarrow> ustr list" where
  "readlines text = split_lines [] (universal_newlines text)"

definition process_file ::
  "services \<Rightarrow> ustr \<Rightarrow> files \<Rightarrow> py_error + files \<times> event list" where
  "process_file sv filepath fs =
     (case fs filepath of
        None \<Rightarrow> Inr (fs, [Print (u ''File not found: '' @ filepath)])
      | Some text \<Rightarrow>
          (case process_loop sv (readlines text) 0 [] [] of
             Inl e \<Rightarrow> Inl e
           | Inr (new_lines, evs) \<Rightarrow>
               Inr (fs(filepath \<mapsto> concat new_lines),
                    evs @ [FileWrite filepath (concat new_lines),
                           Print (u ''Phase 1: Image injection complete.'')])))"

text \<open>The lines and the events that the loop produces on a list of lines.\<close>

definition new_lines_of :: "services \<Rightarrow> ustr list \<Rightarrow> ustr list" where
  "new_lines_of sv lines =
     (case process_loop sv lines 0 [] [] of Inr (new_lines, evs) \<Rightarrow> new_lines | Inl e \<Rightarrow> [])"

definition events_of :: "services \<Rightarrow> ustr list \<Rightarrow> event list" where
  "events_of sv lines =
     (case process_loop sv lines 0 [] [] of Inr (new_lines, evs) \<Rightarrow> evs | Inl e \<Rightarrow> [])"

definition is_request :: "event \<Rightarrow> bool" where
  "is_request e = (case e of WikimediaGet q \<Rightarrow> True | BooksGet q \<Rightarrow> True | _ \<Rightarrow> False)"

section \<open>WordPressPoster\<close>

text \<open>The tokens \<^verbatim>\<open>## <U+8A18><U+4E8B>Vol\<close> and \<^verbatim>\<open>### <U+30BF><U+30A4><U+30C8><U+30EB><U+FF1A>\<close>.\<close>

definition HEADER :: ustr where
  "HEADER = [35, 35, 32, 0x8A18, 0x4E8B, 86, 111, 108]"

definition TITLE :: ustr where
  "TITLE = [35, 35, 35, 32, 0x30BF, 0x30A4, 0x30C8, 0x30EB, 0xFF1A]"

text \<open>
  \<open>re.split\<close> on the look-ahead \<open>(?=tok)\<close>, for a non-empty \<open>tok\<close>: the text is cut before every
  occurrence of \<open>tok\<close>, also one at position 0, which leaves an empty first part. \<open>cur\<close> is
  the part being read.
\<close>

fun re_split :: "ustr \<Rightarrow> ustr \<Rightarrow> ustr \<Rightarrow> ustr list" where
  "re_split tok cur [] = [cur]"
| "re_split tok cur (c # cs) =
     (if prefix tok (c # cs) then cur # re_split tok [c] cs
      else re_split tok (cur @ [c]) cs)"

text \<open>
  \<open>re.search\<close> of the title expression, \<open>TITLE\<close> followed by \<open>(.+)\<close>: the first position where
  the token stands with at least one character other than \<open>\n\<close> after it; group 1 runs to
  the end of the line. The result is (group 0, group 1).
\<close>

fun title_search :: "ustr \<Rightarrow> (ustr \<times> ustr) option" where
  "title_search [] = None"
| "title_search (c # cs) =
     (let g1 = takeWhile (\<lambda>x. x \<noteq> 10) (drop (length TITLE) (c # cs))
      in if prefix TITLE (c # cs) \<and> g1 \<noteq> [] then Some (TITLE @ g1, g1)
         else title_search cs)"

text \<open>\<open>s.replace(old, new)\<close>: every occurrence, left to right, without overlap.\<close>

function str_replace :: "ustr \<Rightarrow> ustr \<Rightarrow> ustr \<Rightarrow> ustr" where
  "str_replace s old new =
     (if old = [] then new @ concat (map (\<lambda>c. c # new) s)
      else if s = [] then []
      else if prefix old s then new @ str_replace (drop (length old) s) old new
      else hd s # str_replace (tl s) old new)"
  by pat_completeness auto
termination
  by (relation "measure (\<lambda>(s, old, new). length s)") auto

declare str_replace.simps [simp del]

record article =
  title :: ustr
  content :: ustr

text \<open>The test of line 191; a part is kept when the test fails.\<close>

definition skipped :: "ustr \<Rightarrow> bool" where
  "skipped part \<longleftrightarrow> strip part = [] \<or> \<not> contains part HEADER"

text \<open>
  Lines 194 to 211, for a part that is kept. \<open>markdown\<close> stands for \<open>markdown.markdown\<close>,
  the renderer of the library, which the program does not define.
\<close>

definition make_article :: "(ustr \<Rightarrow> ustr) \<Rightarrow> ustr \<Rightarrow> article" where
  "make_article markdown part =
     (case title_search part of
        Some (group0, group1) \<Rightarrow>
          \<lparr>title = strip group1, content = markdown (str_replace part group0 [])\<rparr>
      | None \<Rightarrow>
          (let first_line = takeWhile (\<lambda>x. x \<noteq> 10) (strip part)
           in \<lparr>title = strip (str_replace first_line (u ''#'') []), content = markdown part\<rparr>))"

definition split_articles :: "(ustr \<Rightarrow> ustr) \<Rightarrow> ustr \<Rightarrow> article list" where
  "split_articles markdown text =
     map (make_article markdown) (filter (\<lambda>part. \<not> skipped part) (re_split HEADER [] text))"

text \<open>
  The poster: the path, the mode and the three values of the environment, each absent
  (\<open>None\<close>) or a string.
\<close>

record environment =
  WP_USER :: "ustr option"
  WP_APP_PASSWORD :: "ustr option"
  WP_SITE_URL :: "ustr option"

record poster =
  filepath :: ustr
  dry_run :: bool
  wp_user :: "ustr option"
  wp_password :: "ustr option"
  wp_site :: "ustr option"

text \<open>\<open>__init__\<close>: \<open>all([...])\<close> fails on a value that is absent or empty.\<close>

definition init_poster :: "environment \<Rightarrow> ustr \<Rightarrow> bool \<Rightarrow> poster \<times> event list" where
  "init_poster env path dry =
     (let p = \<lparr>filepath = path, dry_run = dry, wp_user = WP_USER env,
                wp_password = WP_APP_PASSWORD env, wp_site = WP_SITE_URL env\<rparr>
      in if \<not> dry_run p \<and> \<not> (truthy (wp_user p) \<and> truthy (wp_password p) \<and> truthy (wp_site p))
         then (p\<lparr>dry_run := True\<rparr>,
               [Print (u ''Warning: WP credentials missing in .env. Switching to dry_run mode.'')])
         else (p, []))"

text \<open>An absent value formats as \<open>None\<close> in an f-string.\<close>

definition format_opt :: "ustr option \<Rightarrow> ustr" where
  "format_opt v = (case v of None \<Rightarrow> u ''None'' | Some s \<Rightarrow> s)"

definition endpoint :: "poster \<Rightarrow> ustr" where
  "endpoint p = format_opt (wp_site p) @ u ''/wp-json/wp/v2/posts''"

definition payload_of :: "article \<Rightarrow> payload" where
  "payload_of a = \<lparr>p_title = title a, p_content = content a, p_status = u ''draft''\<rparr>"

text \<open>The three lines printed for an article in dry-run mode.\<close>

definition dry_run_notice :: "poster \<Rightarrow> article \<Rightarrow> event list" where
  "dry_run_notice p a =
     [Print (u ''--- [DRY RUN] Posting Article: '' @ title a @ u '' ---''),
      Print (u ''Endpoint: '' @ endpoint p),
      Print (u ''Payload (truncated): '' @ take 100 (p_content (payload_of a)) @ u ''...'')]"

text \<open>
  \<open>post_article\<close>. The request and everything after it stand in a \<open>try\<close> whose handler
  catches every exception, prints it and, when the exception carries a response, prints
  the text of that response.
\<close>

definition post_article :: "services \<Rightarrow> poster \<Rightarrow> article \<Rightarrow> event list" where
  "post_article sv p a =
     (if dry_run p then dry_run_notice p a
      else
        HttpPost (endpoint p) (payload_of a) (wp_user p, wp_password p) #
        (case wordpress sv (endpoint p) (payload_of a) of
           Created ident \<Rightarrow>
             [Print (u ''Successfully posted: '' @ title a @ u '' (ID: '' @ ident @ u '')'')]
         | PostRaised e response \<Rightarrow>
             Print (u ''Failed to post '' @ title a @ u '': '' @ e) #
             (case response of None \<Rightarrow> [] | Some body \<Rightarrow> [Print body])))"

text \<open>\<open>process\<close>: the loop over the articles runs \<open>post_article\<close> on each, in order.\<close>

definition process :: "services \<Rightarrow> (ustr \<Rightarrow> ustr) \<Rightarrow> poster \<Rightarrow> files \<Rightarrow> event list" where
  "process sv markdown p fs =
     (case fs (filepath p) of
        None \<Rightarrow> [Print (u ''File not found: '' @ filepath p)]
      | Some text \<Rightarrow>
          (let articles = split_articles markdown (universal_newlines text)
           in [Print (u ''Phase 2: Found '' @ str_nat (length articles) @
                      u '' articles. Starting upload...'')] @
              concat (map (post_article sv p) articles) @
              [Print (u ''Phase 2: Complete.'')]))"

text \<open>
  The mode chosen by the main program from the command line and the environment, and the
  poster it builds.
\<close>

definition main_poster :: "ustr list \<Rightarrow> environment \<Rightarrow> poster \<times> event list" where
  "main_poster argv env =
     (let dry = (u ''--dry-run'' \<in> set argv);
          (dry, ev1) =
            (if WP_SITE_URL env = Some (u ''https://example.com'')
             then (True, [Print (u ''Detected dummy config, enforcing dry-run.'')])
             else (dry, []));
          (p, ev2) = init_poster env (u ''photo_history.md'') dry
      in (p, ev1 @ ev2))"

definition is_post :: "event \<Rightarrow> bool" where
  "is_post e = (case e of HttpPost url body auth \<Rightarrow> True | _ \<Rightarrow> False)"

section \<open>Auxiliary descriptions\<close>

subsection \<open>The enrichment loop, line by line\<close>

text \<open>
  What one iteration of the loop contributes for \<open>line\<close> followed by the lines \<open>rest\<close>, and
  the same for a whole list of lines. \<open>process_loop\<close> is shown below to compute exactly
  this, without ever raising \<open>IndexError\<close>.
\<close>

definition scan_line :: "services \<Rightarrow> ustr \<Rightarrow> ustr list \<Rightarrow> ustr list \<times> event list" where
  "scan_line sv line rest =
     (case pattern_match line of
        None \<Rightarrow> ([line], [])
      | Some (jp_name, en_name) \<Rightarrow>
          if image_follows rest
          then ([line], [Print (u ''Skipping '' @ en_name @ u '', image already present.'')])
          else (let (added, ev) = lookup_image sv jp_name en_name in (line # added, ev)))"

fun scan_lines :: "services \<Rightarrow> ustr list \<Rightarrow> ustr list \<times> event list" where
  "scan_lines sv [] = ([], [])"
| "scan_lines sv (line # rest) =
     (let (out1, ev1) = scan_line sv line rest;
          (out2, ev2) = scan_lines sv rest
      in (out1 @ out2, ev1 @ ev2))"

text \<open>A source gives no result: an exception, \<open>None\<close>, or an empty string.\<close>

definition no_result :: "ustr option reply \<Rightarrow> bool" where
  "no_result r = (case r of Raised e \<Rightarrow> True | Returned v \<Rightarrow> \<not> truthy v)"

text \<open>The URL that the two sources yield for a name, if any.\<close>

definition found_image :: "services \<Rightarrow> ustr \<Rightarrow> ustr option" where
  "found_image sv en_name =
     (let a = (case wikimedia sv en_name of Returned v \<Rightarrow> v | Raised e \<Rightarrow> None);
          b = (if truthy a then a
               else (case google_books sv en_name of Returned v \<Rightarrow> v | Raised e \<Rightarrow> None))
      in if truthy b then b else None)"

subsection \<open>Positions of a token and of the cuts of a partition\<close>

definition occurrences :: "ustr \<Rightarrow> ustr \<Rightarrow> nat list" where
  "occurrences tok s = filter (\<lambda>p. prefix tok (drop p s)) [0..<length s]"

text \<open>The offsets at which the parts after the first begin, the first part beginning at \<open>off\<close>.\<close>

fun boundaries :: "nat \<Rightarrow> ustr list \<Rightarrow> nat list" where
  "boundaries off [] = []"
| "boundaries off (p # ps) =
     (if ps = [] then [] else (off + length p) # boundaries (off + length p) ps)"

subsection \<open>The splitter as the specification words it\<close>

text \<open>
  The specification cuts the text where the header token begins a line. \<open>bol\<close> tells
  whether the position read is the beginning of a line.
\<close>

fun spec_split :: "ustr \<Rightarrow> bool \<Rightarrow> ustr \<Rightarrow> ustr \<Rightarrow> ustr list" where
  "spec_split tok bol cur [] = [cur]"
| "spec_split tok bol cur (c # cs) =
     (if bol \<and> prefix tok (c # cs) then cur # spec_split tok (c = 10) [c] cs
      else spec_split tok (c = 10) (cur @ [c]) cs)"

text \<open>
  The specification takes as title the remainder, stripped, of the line after the first
  title token, and removes the entire line of that token from the body.
\<close>

fun spec_title :: "ustr \<Rightarrow> ustr option" where
  "spec_title [] = None"
| "spec_title (c # cs) =
     (if prefix TITLE (c # cs)
      then Some (strip (takeWhile (\<lambda>x. x \<noteq> 10) (drop (length TITLE) (c # cs))))
      else spec_title cs)"

fun remove_title_line :: "ustr list \<Rightarrow> ustr list" where
  "remove_title_line [] = []"
| "remove_title_line (l # ls) = (if contains l TITLE then ls else l # remove_title_line ls)"

definition spec_body :: "ustr \<Rightarrow> ustr" where
  "spec_body part = concat (remove_title_line (split_lines [] part))"

text \<open>
  The fallback title of the specification: the first non-empty line, without its leading
  hashes and the white space around.
\<close>

definition spec_fallback_title :: "ustr \<Rightarrow> ustr" where
  "spec_fallback_title part =
     (case filter (\<lambda>l. l \<noteq> []) (map (filter (\<lambda>x. x \<noteq> 10)) (split_lines [] part)) of
        [] \<Rightarrow> []
      | l # ls \<Rightarrow> strip (dropWhile (\<lambda>x. x = 35) l))"

subsection \<open>Terminated lines\<close>

text \<open>
  A line as \<open>readlines\<close> gives it when its terminator is there: one \<open>\n\<close>, at the end, and
  no \<open>\r\<close>. The sources give single-line URLs when no URL found holds a line break.
\<close>

definition terminated :: "ustr \<Rightarrow> bool" where
  "terminated l \<longleftrightarrow> (\<exists>b. l = b @ [10] \<and> 10 \<notin> set b \<and> 13 \<notin> set b)"

definition single_line_urls :: "services \<Rightarrow> bool" where
  "single_line_urls sv \<longleftrightarrow> (\<forall>q url. found_image sv q = Some url \<longrightarrow> 10 \<notin> set url \<and> 13 \<notin> set url)"

section \<open>Sample inputs\<close>

text \<open>Two entries of a document, without their line terminator, and documents around them.\<close>

definition domon_entry :: ustr where
  "domon_entry = u ''**'' @ [0x25A0, 32, 0x571F, 0x9580, 0x62F3] @ u '' (Ken Domon) '' @
     [0xFF5C, 32, 0x65E5, 0x672C] @ u ''**''"

definition hosoe_entry :: ustr where
  "hosoe_entry = u ''**'' @ [0x25A0, 32, 0x7D30, 0x6C5F, 0x82F1, 0x516C] @ u ''  (Eikoh Hosoe) | '' @
     [0x65E5, 0x672C] @ u ''**''"

definition domon_text :: ustr where
  "domon_text = u ''# Photographers'' @ [10] @ domon_entry @ [10] @ u ''He made pictures.'' @ [10]"

definition hosoe_text :: ustr where
  "hosoe_text = u ''# Photographers'' @ [10] @ hosoe_entry @ [10] @ u ''He made pictures.'' @ [10]"

definition last_text :: ustr where
  "last_text = u ''# Photographers'' @ [10] @ domon_entry"

definition sample_services :: services where
  "sample_services =
     \<lparr>wikimedia = (\<lambda>q. if q = u ''Ken Domon'' then Returned (Some (u ''https://img.example/domon.jpg''))
                        else if q = u ''Eikoh Hosoe'' then Raised (u ''timed out'')
                        else Returned None),
      google_books = (\<lambda>q. if q = u ''Eikoh Hosoe''
                           then Returned (Some (u ''https://books.example/hosoe.png''))
                           else Returned None),
      wordpress = (\<lambda>url body. if p_title body = u ''First''
                              then PostRaised (u ''500 Server Error'') (Some (u ''rejected''))
                              else Created (u ''7''))\<rparr>"

text \<open>A document with a preamble and two articles, and two environments.\<close>

definition two_articles :: ustr where
  "two_articles =
     u ''intro'' @ [10] @
     HEADER @ u ''.1'' @ [10] @ TITLE @ u ''First'' @ [10] @ u ''alpha'' @ [10] @
     HEADER @ u ''.2'' @ [10] @ TITLE @ u '' Second '' @ [10] @ u ''beta'' @ [10]"

definition full_environment :: environment where
  "full_environment =
     \<lparr>WP_USER = Some (u ''editor''), WP_APP_PASSWORD = Some (u ''abcd efgh''),
      WP_SITE_URL = Some (u ''https://blog.example'')\<rparr>"

definition no_user_environment :: environment where
  "no_user_environment =
     \<lparr>WP_USER = None, WP_APP_PASSWORD = Some (u ''abcd efgh''),
      WP_SITE_URL = Some (u ''https://blog.example'')\<rparr>"

text \<open>A text that mentions the header token in the middle of its only line.\<close>

definition midline_text :: ustr where
  "midline_text = u ''see '' @ HEADER @ u ''.1''"

text \<open>A section without title line whose header line holds a hash of its own.\<close>

definition hash_text :: ustr where
  "hash_text = HEADER @ u ''.1 C# notes'' @ [10] @ u ''body''"

text \<open>
  Sections with the title token in the middle of a line, and with nothing after it; the
  first section of the sample document.
\<close>

definition midtitle_text :: ustr where
  "midtitle_text = HEADER @ u ''.1 '' @ TITLE @ u ''Foo'' @ [10] @ u ''body''"

definition untitled_text :: ustr where
  "untitled_text = HEADER @ u ''.1'' @ [10] @ TITLE @ [10] @ u ''body''"

definition first_part :: ustr where
  "first_part = HEADER @ u ''.1'' @ [10] @ TITLE @ u ''First'' @ [10] @ u ''alpha'' @ [10]"

text \<open>
  The reference line of Ken Domon, and the document \<open>last_text\<close> after one run and after
  two runs of the enricher.
\<close>

definition domon_image :: ustr where
  "domon_image =
     u ''!['' @ [0x571F, 0x9580, 0x62F3] @ u '' (Ken Domon)](https://img.example/domon.jpg)'' @ [10]"

definition once_text :: ustr where
  "once_text = last_text @ domon_image @ [10]"

definition twice_text :: ustr where
  "twice_text = last_text @ domon_image @ domon_image @ [10, 10]"

text \<open>
  An entry for which no source has a picture, in a document whose lines end with
  \<^verbatim>\<open>\r\n\<close>, and the same document with \<^verbatim>\<open>\n\<close>.
\<close>

definition nobody_entry :: ustr where
  "nobody_entry = u ''**'' @ [0x25A0, 32, 0x7121, 0x540D] @ u '' (Nobody) | '' @
     [0x65E5, 0x672C] @ u ''**''"

definition crlf_text :: ustr where
  "crlf_text = u ''# Photographers'' @ [13, 10] @ nobody_entry @ [13, 10] @
     u ''No picture.'' @ [13, 10]"

definition lf_text :: ustr where
  "lf_text = u ''# Photographers'' @ [10] @ nobody_entry @ [10] @ u ''No picture.'' @ [10]"

text \<open>
  The document of Ken Domon with \<^verbatim>\<open>\r\n\<close> at the end of its lines, and the text
  written for it.
\<close>

definition crlf_domon_text :: ustr where
  "crlf_domon_text = u ''# Photographers'' @ [13, 10] @ domon_entry @ [13, 10] @
     u ''He made pictures.'' @ [13, 10]"

definition domon_out_text :: ustr where
  "domon_out_text = u ''# Photographers'' @ [10] @ domon_entry @ [10] @ domon_image @ [10] @
     u ''He made pictures.'' @ [10]"

section \<open>Properties of the enricher\<close>

lemma image_present_eq: "image_present lines i = Inr (image_follows (drop i lines))"
  by (cases "drop i lines")
     (auto simp: image_present_def image_follows_def getitem_def hd_drop_conv_nth[symmetric])

lemma process_loop_scan:
  "process_loop sv lines i new_lines evs =
     Inr (new_lines @ fst (scan_lines sv (drop i lines)), evs @ snd (scan_lines sv (drop i lines)))"
proof (induction sv lines i new_lines evs rule: process_loop.induct)
  case (1 sv lines i new_lines evs)
  show ?case
  proof (cases "i < length lines")
    case False
    then show ?thesis by (simp add: process_loop.simps)
  next
    case True
    then have d: "drop i lines = lines ! i # drop (Suc i) lines"
      by (simp add: Cons_nth_drop_Suc)
    have g: "getitem lines i = Inr (lines ! i)" using True by (simp add: getitem_def)
    show ?thesis
    proof (cases "pattern_match (lines ! i)")
      case None
      with True g d "1.IH"(1)[OF True g None] show ?thesis
        by (subst process_loop.simps) (simp add: scan_line_def split: prod.splits)
    next
      case (Some p)
      obtain jp en where p: "p = (jp, en)" by (cases p)
      show ?thesis
      proof (cases "image_follows (drop (Suc i) lines)")
        case t: True
        have ip: "image_present lines (i + 1) = Inr True" using t by (simp add: image_present_eq)
        from "1.IH"(2)[OF True g Some[unfolded p] refl ip refl] True g d Some p t ip show ?thesis
          by (subst process_loop.simps) (simp add: scan_line_def split: prod.splits)
      next
        case f: False
        have ip: "image_present lines (i + 1) = Inr False" using f by (simp add: image_present_eq)
        obtain added ev where l: "lookup_image sv jp en = (added, ev)" by (cases "lookup_image sv jp en")
        from "1.IH"(3)[OF True g Some[unfolded p] refl ip refl refl l[symmetric]] True g d Some p f ip l show ?thesis
          by (subst process_loop.simps) (simp add: scan_line_def split: prod.splits)
      qed
    qed
  qed
qed

lemma strip_head:
  assumes "\<forall>x\<in>set ws. isspace x" and "\<not> isspace c"
  shows "\<exists>t. strip (ws @ c # s) = c # t"
proof -
  have 1: "dropWhile isspace (ws @ c # s) = c # s"
    using assms by simp
  have "\<exists>zs. dropWhile isspace (rev s @ [c]) = zs @ [c]"
    using assms(2) by (simp add: dropWhile_append)
  then obtain zs where "dropWhile isspace (rev (c # s)) = zs @ [c]" by auto
  with 1 show ?thesis by (simp add: strip_def)
qed

lemma rx_match_OneD:
  "rx_match (One c # rs) s g = Some r \<Longrightarrow>
   \<exists>x s'. s = x # s' \<and> in_class c x \<and> rx_match rs s' g = Some r"
  by (cases s) (auto split: if_splits)

lemma greedyD:
  "greedy k c s = Some r \<Longrightarrow>
   \<exists>ws s'. s = ws @ s' \<and> (\<forall>x\<in>set ws. in_class c x) \<and> k s' = Some r"
proof (induction s)
  case Nil
  then show ?case by simp
next
  case (Cons x s)
  show ?case
  proof (cases "in_class c x \<and> greedy k c s = Some r")
    case True
    with Cons.IH obtain ws s' where "s = ws @ s'" "\<forall>x\<in>set ws. in_class c x" "k s' = Some r"
      by blast
    with True have "x # s = (x # ws) @ s' \<and> (\<forall>y\<in>set (x # ws). in_class c y) \<and> k s' = Some r"
      by simp
    then show ?thesis by blast
  next
    case False
    with Cons.prems have "k (x # s) = Some r"
      by (auto split: if_splits option.splits)
    then have "x # s = [] @ (x # s) \<and> (\<forall>y\<in>set []. in_class c y) \<and> k (x # s) = Some r"
      by simp
    then show ?thesis by blast
  qed
qed

lemma rx_match_StarD:
  assumes "rx_match (Star c # rs) s g = Some r"
  shows "\<exists>ws s'. s = ws @ s' \<and> (\<forall>x\<in>set ws. in_class c x) \<and> rx_match rs s' g = Some r"
  using assms greedyD[of "\<lambda>s'. rx_match rs s' g" c s r] by simp

lemma pattern_match_SomeD:
  "pattern_match m = Some (jp, en) \<Longrightarrow> rx_match pattern m [] = Some [jp, en]"
  by (auto simp: pattern_match_def split: option.splits list.splits)

lemma marker_head:
  assumes "pattern_match m = Some (jp, en)"
  shows "\<exists>ws t. m = ws @ 42 # 42 # t \<and> (\<forall>x\<in>set ws. isspace x)"
proof -
  from pattern_match_SomeD[OF assms] obtain ws s0 rs where
    m: "m = ws @ s0" and ws: "\<forall>x\<in>set ws. in_class Space x"
    and r: "rx_match (One (Chr 42) # One (Chr 42) # rs) s0 [] = Some [jp, en]"
    unfolding pattern_def by (blast dest: rx_match_StarD)
  from rx_match_OneD[OF r] obtain s1 where s1: "s0 = 42 # s1"
    and r1: "rx_match (One (Chr 42) # rs) s1 [] = Some [jp, en]" by auto
  from rx_match_OneD[OF r1] obtain s2 where s2: "s1 = 42 # s2" by auto
  from m s1 s2 ws show ?thesis by auto
qed

lemma marker_strip: "pattern_match m = Some (jp, en) \<Longrightarrow> \<exists>t. strip m = 42 # t"
proof -
  assume "pattern_match m = Some (jp, en)"
  then obtain ws t where "m = ws @ 42 # 42 # t" "\<forall>x\<in>set ws. isspace x"
    using marker_head by blast
  moreover have "\<not> isspace 42" by (simp add: isspace_def)
  ultimately show ?thesis using strip_head by blast
qed

lemma marker_not_image: "pattern_match m = Some (jp, en) \<Longrightarrow> \<not> image_follows (m # post)"
  by (auto simp: image_follows_def startswith_def u_def dest!: marker_strip)

lemma scan_line_cong:
  "image_follows r1 = image_follows r2 \<Longrightarrow> scan_line sv l r1 = scan_line sv l r2"
  by (simp add: scan_line_def split: option.splits prod.splits)

lemma scan_lines_append:
  "\<not> image_follows rest \<Longrightarrow>
   scan_lines sv (pre @ rest) =
     (fst (scan_lines sv pre) @ fst (scan_lines sv rest),
      snd (scan_lines sv pre) @ snd (scan_lines sv rest))"
proof (induction pre)
  case Nil
  then show ?case by simp
next
  case (Cons l pre)
  have "image_follows (pre @ rest) = image_follows pre"
    using Cons.prems by (cases pre) (simp_all add: image_follows_def)
  then have "scan_line sv l (pre @ rest) = scan_line sv l pre" by (rule scan_line_cong)
  with Cons show ?case by (simp add: split_def Let_def)
qed

lemma new_lines_of_scan: "new_lines_of sv lines = fst (scan_lines sv lines)"
  by (simp add: new_lines_of_def process_loop_scan split: prod.splits)

lemma events_of_scan: "events_of sv lines = snd (scan_lines sv lines)"
  by (simp add: events_of_def process_loop_scan split: prod.splits)

lemma process_loop_total:
  "process_loop sv lines 0 [] [] = Inr (new_lines_of sv lines, events_of sv lines)"
  by (simp add: new_lines_of_scan events_of_scan process_loop_scan)

lemma subseq_scan_lines: "subseq lines (fst (scan_lines sv lines))"
proof (induction lines)
  case Nil
  then show ?case by simp
next
  case (Cons l lines)
  have "\<exists>a e. scan_line sv l lines = (l # a, e)"
    by (simp add: scan_line_def Let_def split_def split: option.splits)
  then obtain a e where s: "scan_line sv l lines = (l # a, e)" by blast
  have "subseq lines (a @ fst (scan_lines sv lines))"
    using Cons.IH by (rule subseq_drop_many)
  with s show ?case by (simp add: split_def Let_def)
qed

lemma lookup_image_A:
  assumes "wikimedia sv en = Returned (Some url)" and "url \<noteq> []"
  shows "lookup_image sv jp en =
     ([image_line jp en url],
      [Print (u ''Found photographer: '' @ en), Print (u ''Searching Wikimedia for: '' @ en),
       WikimediaGet en, Print (u ''Found image: '' @ url)])"
  using assms by (simp add: lookup_image_def fetch_wikimedia_image_def truthy_def)

lemma lookup_image_B:
  assumes "no_result (wikimedia sv en)" and "google_books sv en = Returned (Some url)" and "url \<noteq> []"
  shows "fst (lookup_image sv jp en) = [image_line jp en url]"
  using assms
  by (auto simp: lookup_image_def fetch_wikimedia_image_def fetch_google_books_image_def
        no_result_def truthy_def split: reply.splits option.splits)

lemma lookup_image_none:
  assumes "no_result (wikimedia sv en)" and "no_result (google_books sv en)"
  shows "fst (lookup_image sv jp en) = []"
  using assms
  by (auto simp: lookup_image_def fetch_wikimedia_image_def fetch_google_books_image_def
        no_result_def truthy_def split: reply.splits option.splits)

lemma lookup_image_requests:
  "filter is_request (snd (lookup_image sv jp en)) =
     WikimediaGet en # (if no_result (wikimedia sv en) then [BooksGet en] else [])"
  by (auto simp: lookup_image_def fetch_wikimedia_image_def fetch_google_books_image_def
        no_result_def truthy_def is_request_def split: reply.splits option.splits)

lemma scan_marker:
  assumes "pattern_match m = Some (jp, en)" and "\<not> image_follows post"
  shows "scan_lines sv (pre @ m # post) =
     (fst (scan_lines sv pre) @ m # fst (lookup_image sv jp en) @ fst (scan_lines sv post),
      snd (scan_lines sv pre) @ snd (lookup_image sv jp en) @ snd (scan_lines sv post))"
proof -
  have "scan_line sv m post = (m # fst (lookup_image sv jp en), snd (lookup_image sv jp en))"
    using assms by (simp add: scan_line_def split_def Let_def)
  then have "scan_lines sv (m # post) =
     (m # fst (lookup_image sv jp en) @ fst (scan_lines sv post),
      snd (lookup_image sv jp en) @ snd (scan_lines sv post))"
    by (simp add: split_def Let_def)
  with scan_lines_append[OF marker_not_image[OF assms(1)], of sv pre post] show ?thesis by simp
qed

lemma process_file_Some:
  "fs path = Some doc \<Longrightarrow>
   process_file sv path fs =
     Inr (fs(path \<mapsto> concat (new_lines_of sv (readlines doc))),
          events_of sv (readlines doc) @
          [FileWrite path (concat (new_lines_of sv (readlines doc))),
           Print (u ''Phase 1: Image injection complete.'')])"
  by (simp add: process_file_def process_loop_total)

lemma lookup_image_found:
  "fst (lookup_image sv jp en) =
     (case found_image sv en of Some url \<Rightarrow> [image_line jp en url] | None \<Rightarrow> [])"
  by (auto simp: lookup_image_def fetch_wikimedia_image_def fetch_google_books_image_def
        found_image_def truthy_def Let_def split: reply.splits option.splits)

lemma lookup_image_second:
  assumes "no_result (wikimedia sv en)"
  shows "fst (lookup_image sv jp en) =
     (case google_books sv en of
        Returned (Some url) \<Rightarrow> if url = [] then [] else [image_line jp en url]
      | _ \<Rightarrow> [])"
  using assms
  by (auto simp: lookup_image_def fetch_wikimedia_image_def fetch_google_books_image_def
        no_result_def truthy_def split: reply.splits option.splits)

text \<open>
  C10. When the entry marker line is the last line of the document, the look-ahead reads
  no line: the loop ends without \<open>IndexError\<close>, the marker counts as not yet enriched, the
  sources are asked (A, then B when A gave nothing), and the reference found, if any, is
  the last element of the output and the end of the file written.
\<close>

theorem marker_on_last_line:
  assumes "fs path = Some doc" and "readlines doc = pre @ [m]"
    and "pattern_match m = Some (jp, en)"
  shows "process_loop sv (readlines doc) 0 [] [] =
           Inr (new_lines_of sv pre @ m # fst (lookup_image sv jp en),
                events_of sv pre @ snd (lookup_image sv jp en)) \<and>
         filter is_request (snd (lookup_image sv jp en)) =
           WikimediaGet en # (if no_result (wikimedia sv en) then [BooksGet en] else []) \<and>
         fst (lookup_image sv jp en) =
           (case found_image sv en of Some url \<Rightarrow> [image_line jp en url] | None \<Rightarrow> []) \<and>
         process_file sv path fs =
           Inr (fs(path \<mapsto> concat (new_lines_of sv pre) @ m @ concat (fst (lookup_image sv jp en))),
                events_of sv pre @ snd (lookup_image sv jp en) @
                [FileWrite path (concat (new_lines_of sv pre) @ m @ concat (fst (lookup_image sv jp en))),
                 Print (u ''Phase 1: Image injection complete.'')])"
proof -
  have nf: "\<not> image_follows []" by (simp add: image_follows_def)
  note sm = scan_marker[OF assms(3) nf, of sv pre]
  have 1: "process_loop sv (readlines doc) 0 [] [] =
           Inr (new_lines_of sv pre @ m # fst (lookup_image sv jp en),
                events_of sv pre @ snd (lookup_image sv jp en))"
    using sm by (simp add: process_loop_scan new_lines_of_scan events_of_scan assms(2))
  then have 2: "new_lines_of sv (readlines doc) = new_lines_of sv pre @ m # fst (lookup_image sv jp en)"
    and 3: "events_of sv (readlines doc) = events_of sv pre @ snd (lookup_image sv jp en)"
    by (simp_all add: new_lines_of_def events_of_def)
  from 1 lookup_image_requests[of sv jp en] lookup_image_found[of sv jp en]
    process_file_Some[of fs path doc sv, OF assms(1)]
  show ?thesis by (simp add: 2 3)
qed

lemmas sample_defs =
  domon_entry_def hosoe_entry_def domon_text_def hosoe_text_def last_text_def
  sample_services_def u_def

lemma domon_match:
  "pattern_match (domon_entry @ [10]) = Some ([0x571F, 0x9580, 0x62F3], u ''Ken Domon'')"
  by (simp add: pattern_match_def pattern_def sample_defs isspace_def)

lemma hosoe_match:
  "pattern_match (hosoe_entry @ [10]) = Some ([0x7D30, 0x6C5F, 0x82F1, 0x516C], u ''Eikoh Hosoe'')"
  by (simp add: pattern_match_def pattern_def sample_defs isspace_def)

lemma plain_lines:
  "new_lines_of sv [u ''# Photographers'' @ [10]] = [u ''# Photographers'' @ [10]]"
  "new_lines_of sv [u ''He made pictures.'' @ [10]] = [u ''He made pictures.'' @ [10]]"
  "events_of sv [u ''# Photographers'' @ [10]] = []"
  "events_of sv [u ''He made pictures.'' @ [10]] = []"
  by (simp_all add: new_lines_of_scan events_of_scan scan_line_def pattern_match_def pattern_def
        u_def isspace_def)

text \<open>A document that ends with the entry of Ken Domon, with no line terminator.\<close>

theorem marker_on_last_line_witness:
  "[u ''photo_history.md'' \<mapsto> last_text] (u ''photo_history.md'') = Some last_text \<and>
   readlines last_text = [u ''# Photographers'' @ [10]] @ [domon_entry] \<and>
   pattern_match domon_entry = Some ([0x571F, 0x9580, 0x62F3], u ''Ken Domon'') \<and>
   process_loop sample_services (readlines last_text) 0 [] [] =
     Inr ([u ''# Photographers'' @ [10], domon_entry,
           u ''!['' @ [0x571F, 0x9580, 0x62F3] @
             u '' (Ken Domon)](https://img.example/domon.jpg)'' @ [10, 10]],
          [Print (u ''Found photographer: Ken Domon''),
           Print (u ''Searching Wikimedia for: Ken Domon''),
           WikimediaGet (u ''Ken Domon''),
           Print (u ''Found image: https://img.example/domon.jpg'')])"
proof -
  have h1: "[u ''photo_history.md'' \<mapsto> last_text] (u ''photo_history.md'') = Some last_text"
    by simp
  have h2: "readlines last_text = [u ''# Photographers'' @ [10]] @ [domon_entry]"
    by (simp add: readlines_def sample_defs)
  have h3: "pattern_match domon_entry = Some ([0x571F, 0x9580, 0x62F3], u ''Ken Domon'')"
    by (simp add: pattern_match_def pattern_def sample_defs isspace_def)
  have a: "wikimedia sample_services (u ''Ken Domon'') =
      Returned (Some (u ''https://img.example/domon.jpg''))"
    by (simp add: sample_defs)
  have n: "u ''https://img.example/domon.jpg'' \<noteq> []" by (simp add: u_def)
  from marker_on_last_line[where fs = "[u ''photo_history.md'' \<mapsto> last_text]"
      and path = "u ''photo_history.md''" and doc = last_text, OF h1 h2 h3, of sample_services]
    h1 h2 h3 lookup_image_A[OF a n, of "[0x571F, 0x9580, 0x62F3]"]
  show ?thesis by (simp add: plain_lines image_line_def) (simp add: u_def)
qed

section \<open>Missing input file\<close>

text \<open>
  C9. When the path does not exist, \<open>process_file\<close> and \<open>process\<close> both print that the file
  was not found and return: the files are unchanged, and the trace holds that one line
  only, so nothing is written, no image source is asked and nothing is submitted or
  simulated.
\<close>

theorem missing_file_noop:
  assumes "fs path = None" and "filepath p = path"
  shows "process_file sv path fs = Inr (fs, [Print (u ''File not found: '' @ path)]) \<and>
         process sv md p fs = [Print (u ''File not found: '' @ path)]"
  using assms by (simp add: process_file_def process_def)

text \<open>No file at all, and the poster that the main program builds.\<close>

theorem missing_file_noop_witness:
  "(Map.empty :: files) (u ''photo_history.md'') = None \<and>
   filepath (fst (main_poster [u ''auto_poster.py'']
       \<lparr>WP_USER = None, WP_APP_PASSWORD = None, WP_SITE_URL = None\<rparr>))
     = u ''photo_history.md'' \<and>
   process_file \<lparr>wikimedia = (\<lambda>q. Returned None), google_books = (\<lambda>q. Returned None),
                 wordpress = (\<lambda>url body. Created [49])\<rparr> (u ''photo_history.md'') Map.empty
     = Inr (Map.empty, [Print (u ''File not found: photo_history.md'')]) \<and>
   process \<lparr>wikimedia = (\<lambda>q. Returned None), google_books = (\<lambda>q. Returned None),
            wordpress = (\<lambda>url body. Created [49])\<rparr> id
     (fst (main_poster [u ''auto_poster.py'']
        \<lparr>WP_USER = None, WP_APP_PASSWORD = None, WP_SITE_URL = None\<rparr>))
     Map.empty
     = [Print (u ''File not found: photo_history.md'')]"
proof -
  have f: "filepath (fst (main_poster [u ''auto_poster.py'']
       \<lparr>WP_USER = None, WP_APP_PASSWORD = None, WP_SITE_URL = None\<rparr>))
     = u ''photo_history.md''"
    by (simp add: main_poster_def init_poster_def truthy_def u_def)
  show ?thesis
    using missing_file_noop [of Map.empty "u ''photo_history.md''" _ _ id, OF _ f] f
    by (simp add: u_def)
qed

section \<open>Properties of the publisher\<close>

lemma main_poster_dry_run:
  assumes "u ''--dry-run'' \<in> set argv \<or> \<not> truthy (WP_USER env) \<or>
           \<not> truthy (WP_APP_PASSWORD env) \<or> \<not> truthy (WP_SITE_URL env) \<or>
           WP_SITE_URL env = Some (u ''https://example.com'')"
  shows "dry_run (fst (main_poster argv env))"
  using assms by (auto simp: main_poster_def init_poster_def Let_def split: prod.splits)

lemma filter_post_dry: "filter is_post (dry_run_notice p a) = []"
  by (simp add: dry_run_notice_def is_post_def)

lemma filter_post_article:
  "\<not> dry_run p \<Longrightarrow>
   filter is_post (post_article sv p a) =
     [HttpPost (endpoint p) (payload_of a) (wp_user p, wp_password p)]"
  by (simp add: post_article_def is_post_def split: post_reply.splits option.splits)

lemma filter_concat_single:
  "(\<And>x. x \<in> set xs \<Longrightarrow> filter P (f x) = [g x]) \<Longrightarrow> filter P (concat (map f xs)) = map g xs"
  by (induction xs) auto

lemma filter_concat_none:
  "(\<And>x. x \<in> set xs \<Longrightarrow> filter P (f x) = []) \<Longrightarrow> filter P (concat (map f xs)) = []"
  by (induction xs) auto

text \<open>
  C7. Dry-run mode is in effect when the flag is on the command line, or one of the three
  values of the environment is absent (or empty), or the site URL is the placeholder
  \<^verbatim>\<open>https://example.com\<close>. The poster that the main program builds then sends no request:
  \<open>process\<close> prints the count, then for each article, in the order of the document, the
  three lines of the notice (the title, the endpoint, the first 100 characters of the
  content), then the closing line.
\<close>

theorem dry_run_posts_nothing:
  assumes "u ''--dry-run'' \<in> set argv \<or> \<not> truthy (WP_USER env) \<or>
           \<not> truthy (WP_APP_PASSWORD env) \<or> \<not> truthy (WP_SITE_URL env) \<or>
           WP_SITE_URL env = Some (u ''https://example.com'')"
    and "p = fst (main_poster argv env)" and "fs (filepath p) = Some doc"
  shows "process sv md p fs =
           [Print (u ''Phase 2: Found '' @ str_nat (length (split_articles md (universal_newlines doc))) @
                   u '' articles. Starting upload...'')] @
           concat (map (\<lambda>a. [Print (u ''--- [DRY RUN] Posting Article: '' @ title a @ u '' ---''),
                              Print (u ''Endpoint: '' @ format_opt (wp_site p) @ u ''/wp-json/wp/v2/posts''),
                              Print (u ''Payload (truncated): '' @ take 100 (content a) @ u ''...'')])
                    (split_articles md (universal_newlines doc))) @
           [Print (u ''Phase 2: Complete.'')] \<and>
         filter is_post (process sv md p fs) = []"
proof -
  have d: "dry_run p" using assms(1,2) main_poster_dry_run by simp
  have 1: "process sv md p fs =
           [Print (u ''Phase 2: Found '' @ str_nat (length (split_articles md (universal_newlines doc))) @
                   u '' articles. Starting upload...'')] @
           concat (map (dry_run_notice p) (split_articles md (universal_newlines doc))) @
           [Print (u ''Phase 2: Complete.'')]"
  proof -
    have "post_article sv p = dry_run_notice p"
      using d by (simp add: post_article_def fun_eq_iff)
    with assms(3) show ?thesis by (simp add: process_def Let_def)
  qed
  have 2: "filter is_post (process sv md p fs) = []"
    unfolding 1 by (simp add: is_post_def filter_concat_none filter_post_dry)
  have dn: "dry_run_notice p =
      (\<lambda>a. [Print (u ''--- [DRY RUN] Posting Article: '' @ title a @ u '' ---''),
            Print (u ''Endpoint: '' @ format_opt (wp_site p) @ u ''/wp-json/wp/v2/posts''),
            Print (u ''Payload (truncated): '' @ take 100 (content a) @ u ''...'')])"
    by (simp add: dry_run_notice_def endpoint_def payload_of_def fun_eq_iff)
  from 1 have 3: "process sv md p fs =
           [Print (u ''Phase 2: Found '' @ str_nat (length (split_articles md (universal_newlines doc))) @
                   u '' articles. Starting upload...'')] @
           concat (map (\<lambda>a. [Print (u ''--- [DRY RUN] Posting Article: '' @ title a @ u '' ---''),
                              Print (u ''Endpoint: '' @ format_opt (wp_site p) @ u ''/wp-json/wp/v2/posts''),
                              Print (u ''Payload (truncated): '' @ take 100 (content a) @ u ''...'')])
                    (split_articles md (universal_newlines doc))) @
           [Print (u ''Phase 2: Complete.'')]"
    by (simp only: dn)
  from 3 2 show ?thesis by blast
qed

text \<open>
  C8. Outside dry-run mode, whatever the endpoint replies, the requests sent are one per
  article, in the order of the document: an article whose request fails has its failure
  printed, and the articles after it are submitted all the same.
\<close>

theorem failed_post_does_not_stop_batch:
  assumes "\<not> dry_run p" and "fs (filepath p) = Some doc"
  shows "filter is_post (process sv md p fs) =
           map (\<lambda>a. HttpPost (endpoint p) (payload_of a) (wp_user p, wp_password p))
             (split_articles md (universal_newlines doc)) \<and>
         (\<forall>a\<in>set (split_articles md (universal_newlines doc)). \<forall>e r.
            wordpress sv (endpoint p) (payload_of a) = PostRaised e r \<longrightarrow>
            Print (u ''Failed to post '' @ title a @ u '': '' @ e) \<in> set (process sv md p fs))"
proof -
  have 1: "process sv md p fs =
           [Print (u ''Phase 2: Found '' @ str_nat (length (split_articles md (universal_newlines doc))) @
                   u '' articles. Starting upload...'')] @
           concat (map (post_article sv p) (split_articles md (universal_newlines doc))) @
           [Print (u ''Phase 2: Complete.'')]"
    using assms(2) by (simp add: process_def Let_def)
  have 2: "filter is_post (process sv md p fs) =
           map (\<lambda>a. HttpPost (endpoint p) (payload_of a) (wp_user p, wp_password p))
             (split_articles md (universal_newlines doc))"
    unfolding 1 using assms(1)
    by (simp add: is_post_def filter_concat_single filter_post_article)
  have 3: "Print (u ''Failed to post '' @ title a @ u '': '' @ e) \<in> set (process sv md p fs)"
    if "a \<in> set (split_articles md (universal_newlines doc))"
      and "wordpress sv (endpoint p) (payload_of a) = PostRaised e r" for a e r
  proof -
    have "Print (u ''Failed to post '' @ title a @ u '': '' @ e) \<in> set (post_article sv p a)"
      using that(2) assms(1) by (simp add: post_article_def)
    with that(1) show ?thesis unfolding 1 by auto
  qed
  from 2 3 show ?thesis by blast
qed

lemma two_articles_split:
  "split_articles id (universal_newlines two_articles) =
     [\<lparr>title = u ''First'', content = HEADER @ u ''.1'' @ [10, 10] @ u ''alpha'' @ [10]\<rparr>,
      \<lparr>title = u ''Second'', content = HEADER @ u ''.2'' @ [10, 10] @ u ''beta'' @ [10]\<rparr>]"
  by (simp add: split_articles_def make_article_def skipped_def two_articles_def HEADER_def
        TITLE_def u_def strip_def isspace_def str_replace.simps Let_def)

lemma no_user_poster:
  "fst (main_poster [u ''auto_poster.py''] no_user_environment) =
     \<lparr>filepath = u ''photo_history.md'', dry_run = True, wp_user = None,
      wp_password = Some (u ''abcd efgh''), wp_site = Some (u ''https://blog.example'')\<rparr>"
  by (simp add: main_poster_def init_poster_def no_user_environment_def truthy_def u_def)

lemma full_poster:
  "fst (main_poster [u ''auto_poster.py''] full_environment) =
     \<lparr>filepath = u ''photo_history.md'', dry_run = False, wp_user = Some (u ''editor''),
      wp_password = Some (u ''abcd efgh''), wp_site = Some (u ''https://blog.example'')\<rparr>"
  by (simp add: main_poster_def init_poster_def full_environment_def truthy_def u_def)

text \<open>
  The two articles with no \<open>WP_USER\<close> in the environment.
\<close>

theorem dry_run_posts_nothing_witness:
  "(u ''--dry-run'' \<in> set [u ''auto_poster.py''] \<or> \<not> truthy (WP_USER no_user_environment) \<or>
    \<not> truthy (WP_APP_PASSWORD no_user_environment) \<or> \<not> truthy (WP_SITE_URL no_user_environment) \<or>
    WP_SITE_URL no_user_environment = Some (u ''https://example.com'')) \<and>
   [u ''photo_history.md'' \<mapsto> two_articles]
     (filepath (fst (main_poster [u ''auto_poster.py''] no_user_environment))) = Some two_articles \<and>
   process sample_services id (fst (main_poster [u ''auto_poster.py''] no_user_environment))
     [u ''photo_history.md'' \<mapsto> two_articles] =
     [Print (u ''Phase 2: Found 2 articles. Starting upload...''),
      Print (u ''--- [DRY RUN] Posting Article: First ---''),
      Print (u ''Endpoint: https://blog.example/wp-json/wp/v2/posts''),
      Print (u ''Payload (truncated): '' @ HEADER @ u ''.1'' @ [10, 10] @ u ''alpha'' @ [10] @ u ''...''),
      Print (u ''--- [DRY RUN] Posting Article: Second ---''),
      Print (u ''Endpoint: https://blog.example/wp-json/wp/v2/posts''),
      Print (u ''Payload (truncated): '' @ HEADER @ u ''.2'' @ [10, 10] @ u ''beta'' @ [10] @ u ''...''),
      Print (u ''Phase 2: Complete.'')]"
proof -
  have h1: "u ''--dry-run'' \<in> set [u ''auto_poster.py''] \<or> \<not> truthy (WP_USER no_user_environment) \<or>
    \<not> truthy (WP_APP_PASSWORD no_user_environment) \<or> \<not> truthy (WP_SITE_URL no_user_environment) \<or>
    WP_SITE_URL no_user_environment = Some (u ''https://example.com'')"
    by (simp add: no_user_environment_def truthy_def)
  have h3: "[u ''photo_history.md'' \<mapsto> two_articles]
     (filepath (fst (main_poster [u ''auto_poster.py''] no_user_environment))) = Some two_articles"
    by (simp add: no_user_poster)
  from dry_run_posts_nothing[where fs = "[u ''photo_history.md'' \<mapsto> two_articles]"
      and doc = two_articles and sv = sample_services and md = id, OF h1 refl h3] h1 h3
  show ?thesis
    by (simp add: two_articles_split no_user_poster format_opt_def str_nat.simps HEADER_def)
       (simp add: u_def)
qed

text \<open>
  The two articles when the endpoint refuses the first one.
\<close>

theorem failed_post_does_not_stop_batch_witness:
  "\<not> dry_run (fst (main_poster [u ''auto_poster.py''] full_environment)) \<and>
   [u ''photo_history.md'' \<mapsto> two_articles]
     (filepath (fst (main_poster [u ''auto_poster.py''] full_environment))) = Some two_articles \<and>
   wordpress sample_services (u ''https://blog.example/wp-json/wp/v2/posts'')
     \<lparr>p_title = u ''First'', p_content = HEADER @ u ''.1'' @ [10, 10] @ u ''alpha'' @ [10],
      p_status = u ''draft''\<rparr> = PostRaised (u ''500 Server Error'') (Some (u ''rejected'')) \<and>
   filter is_post
     (process sample_services id (fst (main_poster [u ''auto_poster.py''] full_environment))
        [u ''photo_history.md'' \<mapsto> two_articles]) =
     [HttpPost (u ''https://blog.example/wp-json/wp/v2/posts'')
        \<lparr>p_title = u ''First'', p_content = HEADER @ u ''.1'' @ [10, 10] @ u ''alpha'' @ [10],
         p_status = u ''draft''\<rparr> (Some (u ''editor''), Some (u ''abcd efgh'')),
      HttpPost (u ''https://blog.example/wp-json/wp/v2/posts'')
        \<lparr>p_title = u ''Second'', p_content = HEADER @ u ''.2'' @ [10, 10] @ u ''beta'' @ [10],
         p_status = u ''draft''\<rparr> (Some (u ''editor''), Some (u ''abcd efgh''))] \<and>
   Print (u ''Failed to post First: 500 Server Error'') \<in>
     set (process sample_services id (fst (main_poster [u ''auto_poster.py''] full_environment))
            [u ''photo_history.md'' \<mapsto> two_articles])"
proof -
  have h1: "\<not> dry_run (fst (main_poster [u ''auto_poster.py''] full_environment))"
    by (simp add: full_poster)
  have h2: "[u ''photo_history.md'' \<mapsto> two_articles]
     (filepath (fst (main_poster [u ''auto_poster.py''] full_environment))) = Some two_articles"
    by (simp add: full_poster)
  have w: "wordpress sample_services (u ''https://blog.example/wp-json/wp/v2/posts'')
     \<lparr>p_title = u ''First'', p_content = HEADER @ u ''.1'' @ [10, 10] @ u ''alpha'' @ [10],
      p_status = u ''draft''\<rparr> = PostRaised (u ''500 Server Error'') (Some (u ''rejected''))"
    by (simp add: sample_services_def)
  from failed_post_does_not_stop_batch[where fs = "[u ''photo_history.md'' \<mapsto> two_articles]"
      and doc = two_articles and sv = sample_services and md = id, OF h1 h2] h1 h2 w
  show ?thesis
    by (simp add: two_articles_split full_poster endpoint_def format_opt_def payload_of_def)
       (simp add: u_def)
qed

section \<open>Properties of the splitter\<close>

lemma concat_re_split: "concat (re_split tok cur s) = cur @ s"
  by (induction s arbitrary: cur) auto

lemma re_split_not_Nil: "re_split tok cur s \<noteq> []"
  by (induction s arbitrary: cur) auto

lemma occurrences_Nil: "occurrences tok [] = []"
  by (simp add: occurrences_def)

lemma occurrences_Cons:
  "occurrences tok (c # cs) =
     (if prefix tok (c # cs) then [0] else []) @ map Suc (occurrences tok cs)"
proof -
  have "[0..<length (c # cs)] = 0 # map Suc [0..<length cs]"
    by (simp add: upt_conv_Cons map_Suc_upt del: upt_Suc)
  then show ?thesis
    by (simp add: occurrences_def filter_map comp_def del: upt_Suc)
qed

lemma boundaries_re_split:
  "boundaries off (re_split tok cur s) = map (\<lambda>p. off + length cur + p) (occurrences tok s)"
proof (induction s arbitrary: off cur)
  case Nil
  then show ?case by (simp add: occurrences_Nil)
next
  case (Cons c cs)
  show ?case
  proof (cases "prefix tok (c # cs)")
    case True
    then show ?thesis
      using Cons.IH[of "off + length cur" "[c]"]
      by (simp add: occurrences_Cons re_split_not_Nil comp_def)
  next
    case False
    then show ?thesis
      using Cons.IH[of off "cur @ [c]"] by (simp add: occurrences_Cons comp_def)
  qed
qed

lemma contains_iff: "contains s x \<longleftrightarrow> (\<exists>k\<le>length s. prefix x (drop k s))"
proof (induction s)
  case Nil
  then show ?case by simp
next
  case (Cons c cs)
  show ?case
  proof
    assume "contains (c # cs) x"
    then consider "prefix x (c # cs)" | "contains cs x" by auto
    then show "\<exists>k\<le>length (c # cs). prefix x (drop k (c # cs))"
    proof cases
      case 1
      then have "0 \<le> length (c # cs) \<and> prefix x (drop 0 (c # cs))" by simp
      then show ?thesis by blast
    next
      case 2
      with Cons.IH obtain k where "k \<le> length cs" "prefix x (drop k cs)" by blast
      then have "Suc k \<le> length (c # cs) \<and> prefix x (drop (Suc k) (c # cs))" by simp
      then show ?thesis by blast
    qed
  next
    assume "\<exists>k\<le>length (c # cs). prefix x (drop k (c # cs))"
    then obtain k where k: "k \<le> length (c # cs)" "prefix x (drop k (c # cs))" by blast
    show "contains (c # cs) x"
    proof (cases k)
      case 0
      with k show ?thesis by simp
    next
      case (Suc j)
      with k Cons.IH show ?thesis by auto
    qed
  qed
qed

text \<open>
  The header token does not overlap itself. Hence every part after the first begins with
  the whole token and is kept, while the first part, the text before the first token,
  holds no token and is dropped.
\<close>

lemma header_no_overlap:
  assumes "prefix HEADER x" and "prefix HEADER (drop k x)" and "0 < k" and "k < 8"
  shows False
proof -
  from assms(1) obtain r where x: "x = HEADER @ r" by (auto simp: prefix_def)
  from assms(3,4) consider "k = 1" | "k = 2" | "k = 3" | "k = 4" | "k = 5" | "k = 6" | "k = 7"
    by linarith
  then show False using assms(2) unfolding x HEADER_def
    by cases simp_all
qed

lemma header_parts:
  "prefix HEADER (cur @ s) \<Longrightarrow> cur \<noteq> [] \<Longrightarrow> \<forall>p\<in>set (re_split HEADER cur s). prefix HEADER p"
proof (induction s arbitrary: cur)
  case Nil
  then show ?case by simp
next
  case (Cons c cs)
  show ?case
  proof (cases "prefix HEADER (c # cs)")
    case True
    have "\<not> length cur < 8"
    proof
      assume "length cur < 8"
      moreover have "prefix HEADER (drop (length cur) (cur @ c # cs))" using True by simp
      moreover have "0 < length cur" using Cons.prems(2) by simp
      ultimately show False using header_no_overlap[OF Cons.prems(1)] by blast
    qed
    then have "length HEADER \<le> length cur" by (simp add: HEADER_def)
    with Cons.prems(1) have "prefix HEADER cur"
      using prefix_length_prefix[of HEADER "cur @ c # cs" cur] by simp
    moreover have "\<forall>p\<in>set (re_split HEADER [c] cs). prefix HEADER p"
      using True by (intro Cons.IH) simp_all
    ultimately show ?thesis using True by simp
  next
    case False
    have "\<forall>p\<in>set (re_split HEADER (cur @ [c]) cs). prefix HEADER p"
      using Cons.prems by (intro Cons.IH) simp_all
    with False show ?thesis by simp
  qed
qed

lemma later_parts: "\<forall>p\<in>set (tl (re_split HEADER cur s)). prefix HEADER p"
proof (induction s arbitrary: cur)
  case Nil
  then show ?case by simp
next
  case (Cons c cs)
  show ?case
  proof (cases "prefix HEADER (c # cs)")
    case True
    then have "\<forall>p\<in>set (re_split HEADER [c] cs). prefix HEADER p"
      by (intro header_parts) simp_all
    with True show ?thesis by simp
  next
    case False
    with Cons.IH[of "cur @ [c]"] show ?thesis by simp
  qed
qed

lemma first_part_no_header:
  "\<forall>k<length cur. \<not> prefix HEADER (drop k (cur @ s)) \<Longrightarrow>
   \<not> contains (hd (re_split HEADER cur s)) HEADER"
proof (induction s arbitrary: cur)
  case Nil
  have "\<not> prefix HEADER (drop k cur)" if "k \<le> length cur" for k
  proof (cases "k < length cur")
    case True
    with Nil show ?thesis by simp
  next
    case False
    with that show ?thesis by (simp add: HEADER_def)
  qed
  then show ?case by (simp add: contains_iff)
next
  case (Cons c cs)
  show ?case
  proof (cases "prefix HEADER (c # cs)")
    case True
    have "\<not> prefix HEADER (drop k cur)" if "k \<le> length cur" for k
    proof (cases "k < length cur")
      case True
      with Cons.prems have "\<not> prefix HEADER (drop k (cur @ c # cs))" by simp
      moreover have "prefix (drop k cur) (drop k (cur @ c # cs))" using True by simp
      ultimately show ?thesis using prefix_order.trans by blast
    next
      case False
      with that show ?thesis by (simp add: HEADER_def)
    qed
    with True show ?thesis by (simp add: contains_iff)
  next
    case False
    have "\<forall>k<length (cur @ [c]). \<not> prefix HEADER (drop k ((cur @ [c]) @ cs))"
    proof (intro allI impI)
      fix k assume "k < length (cur @ [c])"
      then consider "k < length cur" | "k = length cur" by fastforce
      then show "\<not> prefix HEADER (drop k ((cur @ [c]) @ cs))"
      proof cases
        case 1
        with Cons.prems show ?thesis by simp
      next
        case 2
        with False show ?thesis by simp
      qed
    qed
    from Cons.IH[OF this] False show ?thesis by simp
  qed
qed

lemma header_part_kept: "prefix HEADER p \<Longrightarrow> \<not> skipped p"
proof -
  assume p: "prefix HEADER p"
  then obtain r where r: "p = 35 # (35 # 32 # 0x8A18 # 0x4E8B # 86 # 111 # 108 # r)"
    by (auto simp: prefix_def HEADER_def)
  from r have p35: "p = 35 # tl p" by simp
  have "\<exists>t. strip ([] @ 35 # tl p) = 35 # t"
    by (rule strip_head) (simp_all add: isspace_def)
  then have "\<exists>t. strip (35 # tl p) = 35 # t" by simp
  with p35 have "strip p \<noteq> []" by (metis list.distinct(1))
  moreover have "contains p HEADER" using p by (cases p) (auto simp: HEADER_def)
  ultimately show ?thesis by (simp add: skipped_def)
qed

lemma kept_parts:
  "filter (\<lambda>part. \<not> skipped part) (re_split HEADER [] doc) = tl (re_split HEADER [] doc)"
proof -
  obtain f rest where fr: "re_split HEADER [] doc = f # rest"
    using re_split_not_Nil[of HEADER "[]" doc] by (cases "re_split HEADER [] doc") auto
  have "\<not> contains (hd (re_split HEADER [] doc)) HEADER"
    by (intro first_part_no_header) simp
  then have 1: "skipped f" using fr by (simp add: skipped_def)
  have "\<forall>p\<in>set rest. \<not> skipped p"
    using later_parts[of "[]" doc] fr header_part_kept by auto
  then have "filter (\<lambda>part. \<not> skipped part) rest = rest" by (simp add: filter_id_conv)
  with 1 fr show ?thesis by simp
qed

text \<open>
  C4, as the code has it. \<open>re.split\<close> on the look-ahead cuts the text before every
  occurrence of the header token, at the beginning of a line or not: the parts put
  together give the text back, and the offsets at which the parts after the first begin
  are exactly the positions where the token occurs, so that each token starts the part
  that follows the cut. The articles are made, in order, from exactly the parts that are
  not blank and contain the token; these are all the parts but the first.
\<close>

theorem split_at_every_occurrence:
  "concat (re_split HEADER [] doc) = doc \<and>
   boundaries 0 (re_split HEADER [] doc) = occurrences HEADER doc \<and>
   split_articles md doc =
     map (make_article md)
       (filter (\<lambda>part. strip part \<noteq> [] \<and> contains part HEADER) (re_split HEADER [] doc)) \<and>
   split_articles md doc = map (make_article md) (tl (re_split HEADER [] doc))"
proof -
  have "split_articles md doc = map (make_article md) (tl (re_split HEADER [] doc))"
    by (simp add: split_articles_def kept_parts)
  moreover have "split_articles md doc =
     map (make_article md)
       (filter (\<lambda>part. strip part \<noteq> [] \<and> contains part HEADER) (re_split HEADER [] doc))"
    by (simp add: split_articles_def skipped_def)
  ultimately show ?thesis
    using concat_re_split[of HEADER "[]" doc] boundaries_re_split[of 0 HEADER "[]" doc]
    by simp
qed

text \<open>
  C4 as stated, with cuts only where the token begins a line, fails: in the text
  \<^verbatim>\<open>see ## <U+8A18><U+4E8B>Vol.1\<close> the token does not begin a line, the specification's split
  leaves the text whole, and the program cuts it before the token.
\<close>

theorem split_not_only_at_line_starts:
  "re_split HEADER [] midline_text = [u ''see '', HEADER @ u ''.1''] \<and>
   spec_split HEADER True [] midline_text = [midline_text] \<and>
   re_split HEADER [] midline_text \<noteq> spec_split HEADER True [] midline_text"
  by (simp add: midline_text_def HEADER_def u_def)

text \<open>
  The same text: one cut, right after \<^verbatim>\<open>see \<close>, and one article.
\<close>

theorem split_at_every_occurrence_witness:
  "boundaries 0 (re_split HEADER [] midline_text) = [length (u ''see '')] \<and>
   occurrences HEADER midline_text = [length (u ''see '')] \<and>
   map title (split_articles id midline_text) = [[0x8A18, 0x4E8B] @ u ''Vol.1'']"
  using split_at_every_occurrence[of midline_text id]
  by (simp add: midline_text_def HEADER_def TITLE_def u_def make_article_def strip_def isspace_def
        str_replace.simps Let_def)

section \<open>The fallback title\<close>

lemma str_replace_hash: "str_replace s (u ''#'') [] = filter (\<lambda>c. c \<noteq> 35) s"
proof (induction s)
  case Nil
  then show ?case by (simp add: str_replace.simps u_def)
next
  case (Cons c cs)
  then show ?case by (subst str_replace.simps) (auto simp: u_def)
qed

lemma no_token_no_match: "\<not> contains part TITLE \<Longrightarrow> title_search part = None"
  by (induction part) (auto simp: Let_def)

lemma strip_first:
  assumes "strip s \<noteq> []"
  shows "\<exists>c t. strip s = c # t \<and> \<not> isspace c"
proof -
  have d: "dropWhile isspace s \<noteq> []"
  proof
    assume "dropWhile isspace s = []"
    then have "strip s = []" unfolding strip_def by (simp del: dropWhile_eq_Nil_conv)
    with assms show False by simp
  qed
  then obtain c s' where c: "dropWhile isspace s = c # s'" by (cases "dropWhile isspace s") auto
  then have nc: "\<not> isspace c" using hd_dropWhile[OF d] by simp
  have "s = takeWhile isspace s @ c # s'" using c by (metis takeWhile_dropWhile_id)
  moreover have "\<forall>x\<in>set (takeWhile isspace s). isspace x" by (auto dest: set_takeWhileD)
  ultimately obtain t where "strip s = c # t" using strip_head[OF _ nc] by metis
  with nc show ?thesis by blast
qed

lemma first_line_not_empty:
  assumes "strip part \<noteq> []"
  shows "takeWhile (\<lambda>x. x \<noteq> 10) (strip part) \<noteq> []"
proof -
  from strip_first[OF assms] obtain c t where "strip part = c # t" "\<not> isspace c" by blast
  moreover from this have "c \<noteq> 10" by (auto simp: isspace_def)
  ultimately show ?thesis by simp
qed

lemma fallback_article:
  "title_search part = None \<Longrightarrow>
   make_article md part =
     \<lparr>title = strip (filter (\<lambda>c. c \<noteq> 35) (takeWhile (\<lambda>x. x \<noteq> 10) (strip part))),
      content = md part\<rparr>"
  by (simp add: make_article_def str_replace_hash)

lemma kept_part_article:
  "part \<in> set (re_split HEADER [] doc) \<Longrightarrow> \<not> skipped part \<Longrightarrow>
   make_article md part \<in> set (split_articles md doc)"
  by (simp add: split_articles_def)

text \<open>
  C6, as the code has it. A kept section without the title token gets as title its first
  line (the first line of the section stripped of the white space around it, never
  empty) with every \<^verbatim>\<open>#\<close> of that line removed, not only the leading ones, and the white
  space around the result stripped; the body rendered is the whole section.
\<close>

theorem fallback_title_drops_every_hash:
  assumes "part \<in> set (re_split HEADER [] doc)" and "\<not> skipped part"
    and "\<not> contains part TITLE"
  shows "takeWhile (\<lambda>x. x \<noteq> 10) (strip part) \<noteq> [] \<and>
         make_article md part =
           \<lparr>title = strip (filter (\<lambda>c. c \<noteq> 35) (takeWhile (\<lambda>x. x \<noteq> 10) (strip part))),
            content = md part\<rparr> \<and>
         make_article md part \<in> set (split_articles md doc)"
proof -
  have "strip part \<noteq> []" using assms(2) by (simp add: skipped_def)
  then have "takeWhile (\<lambda>x. x \<noteq> 10) (strip part) \<noteq> []" by (rule first_line_not_empty)
  moreover note fallback_article[OF no_token_no_match[OF assms(3)], of md]
    kept_part_article[OF assms(1,2), of md]
  ultimately show ?thesis by blast
qed

text \<open>
  C6 as stated, with only the leading hashes stripped, fails: on the header line
  \<^verbatim>\<open>## <U+8A18><U+4E8B>Vol.1 C# notes\<close> the program also removes the hash of \<^verbatim>\<open>C#\<close>.
\<close>

theorem fallback_title_keeps_no_hash:
  "split_articles id hash_text =
     [\<lparr>title = [0x8A18, 0x4E8B] @ u ''Vol.1 C notes'', content = hash_text\<rparr>] \<and>
   spec_fallback_title hash_text = [0x8A18, 0x4E8B] @ u ''Vol.1 C# notes'' \<and>
   map title (split_articles id hash_text) \<noteq> [spec_fallback_title hash_text]"
  by (simp add: hash_text_def split_articles_def make_article_def skipped_def spec_fallback_title_def
        HEADER_def TITLE_def u_def strip_def isspace_def str_replace.simps Let_def)

text \<open>
  The same section.
\<close>

theorem fallback_title_drops_every_hash_witness:
  "hash_text \<in> set (re_split HEADER [] hash_text) \<and> \<not> skipped hash_text \<and>
   \<not> contains hash_text TITLE \<and>
   make_article id hash_text =
     \<lparr>title = [0x8A18, 0x4E8B] @ u ''Vol.1 C notes'', content = hash_text\<rparr>"
proof -
  have h1: "hash_text \<in> set (re_split HEADER [] hash_text)"
    by (simp add: hash_text_def HEADER_def u_def)
  have h2: "\<not> skipped hash_text"
    by (simp add: hash_text_def skipped_def HEADER_def u_def strip_def isspace_def)
  have h3: "\<not> contains hash_text TITLE"
    by (simp add: hash_text_def HEADER_def TITLE_def u_def)
  from fallback_title_drops_every_hash[OF h1 h2 h3, of id] h1 h2 h3 show ?thesis
    by (simp add: hash_text_def HEADER_def u_def strip_def isspace_def)
qed

section \<open>The title line\<close>

lemma title_search_SomeD:
  "title_search part = Some (g0, g1) \<Longrightarrow>
   \<exists>pre post. part = pre @ TITLE @ g1 @ post \<and> g0 = TITLE @ g1 \<and> g1 \<noteq> [] \<and> 10 \<notin> set g1 \<and>
     (post = [] \<or> hd post = 10) \<and>
     (\<forall>k<length pre. \<not> (prefix TITLE (drop k part) \<and>
          takeWhile (\<lambda>x. x \<noteq> 10) (drop (k + length TITLE) part) \<noteq> []))"
proof (induction part)
  case Nil
  then show ?case by simp
next
  case (Cons c cs)
  let ?r = "drop (length TITLE) (c # cs)"
  show ?case
  proof (cases "prefix TITLE (c # cs) \<and> takeWhile (\<lambda>x. x \<noteq> 10) ?r \<noteq> []")
    case True
    with Cons.prems have g: "g1 = takeWhile (\<lambda>x. x \<noteq> 10) ?r" "g0 = TITLE @ g1"
      by (auto simp: Let_def)
    from True have p: "c # cs = TITLE @ ?r"
      by (metis append_eq_conv_conj prefix_def)
    have r: "?r = g1 @ dropWhile (\<lambda>x. x \<noteq> 10) ?r" using g(1) by simp
    have e: "dropWhile (\<lambda>x. x \<noteq> 10) ?r = [] \<or> hd (dropWhile (\<lambda>x. x \<noteq> 10) ?r) = 10"
      using hd_dropWhile[of "\<lambda>x. x \<noteq> 10" ?r] by auto
    have n: "10 \<notin> set g1" unfolding g(1) by (auto dest: set_takeWhileD)
    have "c # cs = [] @ TITLE @ g1 @ dropWhile (\<lambda>x. x \<noteq> 10) ?r"
      using p r by (metis append_Nil)
    with g True e n show ?thesis unfolding g(1)[symmetric]
      by (metis length_0_conv list.size(3) not_less_zero)
  next
    case False
    with Cons.prems have "title_search cs = Some (g0, g1)"
      by (auto simp: Let_def split: if_splits)
    from Cons.IH[OF this] obtain pre post where
      a: "cs = pre @ TITLE @ g1 @ post" "g0 = TITLE @ g1" "g1 \<noteq> []" "10 \<notin> set g1"
        "post = [] \<or> hd post = 10"
      and b: "\<forall>k<length pre. \<not> (prefix TITLE (drop k cs) \<and>
          takeWhile (\<lambda>x. x \<noteq> 10) (drop (k + length TITLE) cs) \<noteq> [])"
      by blast
    have "\<forall>k<length (c # pre). \<not> (prefix TITLE (drop k (c # cs)) \<and>
          takeWhile (\<lambda>x. x \<noteq> 10) (drop (k + length TITLE) (c # cs)) \<noteq> [])"
    proof (intro allI impI)
      fix k assume k: "k < length (c # pre)"
      show "\<not> (prefix TITLE (drop k (c # cs)) \<and>
          takeWhile (\<lambda>x. x \<noteq> 10) (drop (k + length TITLE) (c # cs)) \<noteq> [])"
      proof (cases k)
        case 0
        with False show ?thesis by simp
      next
        case (Suc j)
        with k b show ?thesis by simp
      qed
    qed
    moreover have "c # cs = (c # pre) @ TITLE @ g1 @ post" using a(1) by simp
    ultimately show ?thesis using a(2-5) by blast
  qed
qed

lemma prefix_match:
  assumes "prefix (TITLE @ g1) s" and "g1 \<noteq> []" and "10 \<notin> set g1"
  shows "prefix TITLE s \<and> takeWhile (\<lambda>x. x \<noteq> 10) (drop (length TITLE) s) \<noteq> []"
proof -
  from assms(1) obtain r where s: "s = TITLE @ g1 @ r" by (auto simp: prefix_def)
  from assms(2,3) obtain x xs where "g1 = x # xs" "x \<noteq> 10" by (cases g1) auto
  with s show ?thesis by simp
qed

lemma str_replace_first:
  assumes "g0 \<noteq> []" and "\<forall>k<length pre. \<not> prefix g0 (drop k (pre @ g0 @ post))"
  shows "str_replace (pre @ g0 @ post) g0 [] = pre @ str_replace post g0 []"
  using assms(2)
proof (induction pre)
  case Nil
  show ?case using assms(1) by (subst str_replace.simps) simp
next
  case (Cons c pre)
  from Cons.prems have 0: "\<not> prefix g0 ((c # pre) @ g0 @ post)" by force
  from Cons.prems have "\<forall>k<length pre. \<not> prefix g0 (drop k (pre @ g0 @ post))" by force
  from Cons.IH[OF this] 0 assms(1) show ?case by (subst str_replace.simps) simp
qed

lemma titled_article:
  assumes "title_search part = Some (g0, g1)"
  shows "\<exists>pre post. part = pre @ TITLE @ g1 @ post \<and> g0 = TITLE @ g1 \<and> g1 \<noteq> [] \<and> 10 \<notin> set g1 \<and>
     (post = [] \<or> hd post = 10) \<and>
     (\<forall>k<length pre. \<not> (prefix TITLE (drop k part) \<and>
          takeWhile (\<lambda>x. x \<noteq> 10) (drop (k + length TITLE) part) \<noteq> [])) \<and>
     make_article md part = \<lparr>title = strip g1, content = md (pre @ str_replace post g0 [])\<rparr>"
proof -
  from title_search_SomeD[OF assms] obtain pre post where
    a: "part = pre @ TITLE @ g1 @ post" "g0 = TITLE @ g1" "g1 \<noteq> []" "10 \<notin> set g1"
      "post = [] \<or> hd post = 10"
    and b: "\<forall>k<length pre. \<not> (prefix TITLE (drop k part) \<and>
          takeWhile (\<lambda>x. x \<noteq> 10) (drop (k + length TITLE) part) \<noteq> [])"
    by blast
  have n: "\<forall>k<length pre. \<not> prefix g0 (drop k (pre @ g0 @ post))"
  proof (intro allI impI notI)
    fix k assume "k < length pre" and "prefix g0 (drop k (pre @ g0 @ post))"
    then have "prefix (TITLE @ g1) (drop k part)" using a(1,2) by simp
    from prefix_match[OF this a(3,4)] b \<open>k < length pre\<close> show False
      by (simp add: add.commute)
  qed
  have "g0 \<noteq> []" using a(2,3) by simp
  from str_replace_first[OF this n] have "str_replace part g0 [] = pre @ str_replace post g0 []"
    using a(1,2) by simp
  then have "make_article md part = \<lparr>title = strip g1, content = md (pre @ str_replace post g0 [])\<rparr>"
    using assms by (simp add: make_article_def)
  with a b show ?thesis by blast
qed

lemma title_search_complete:
  "part = a @ TITLE @ c # b \<Longrightarrow> c \<noteq> 10 \<Longrightarrow> \<exists>g0 g1. title_search part = Some (g0, g1)"
proof (induction a arbitrary: part)
  case Nil
  then have "prefix TITLE part" "drop (length TITLE) part = c # b" by simp_all
  with Nil(2) show ?case by (cases part) (auto simp: Let_def TITLE_def)
next
  case (Cons x a)
  from Cons.IH[OF refl Cons.prems(2)] obtain g0 g1 where
    "title_search (a @ TITLE @ c # b) = Some (g0, g1)" by blast
  with Cons.prems(1) show ?case by (auto simp: Let_def)
qed

text \<open>
  C5, as the code has it. Let a kept section hold the title token followed, on its line,
  by at least one character, and let \<open>pre\<close> be the text before the first such token. The
  title of the article is the text \<open>g1\<close> from that token to the end of its line, stripped
  of the white space around it. The body rendered is \<open>pre\<close>, then the rest of the section
  after the matched text, from which every further occurrence of the matched text (the
  token and \<open>g1\<close>) is removed as well: the matched text is deleted, while what stands
  before the token on its line and the line terminator stay.
\<close>

theorem title_text_removed_from_body:
  assumes "part \<in> set (re_split HEADER [] doc)" and "\<not> skipped part"
    and "part = a @ TITLE @ c # b" and "c \<noteq> 10"
  shows "\<exists>pre g1 post. part = pre @ TITLE @ g1 @ post \<and> g1 \<noteq> [] \<and> 10 \<notin> set g1 \<and>
     (post = [] \<or>
      (\<exists>rest. post = 10 # rest \<and>
         str_replace post (TITLE @ g1) [] = 10 # str_replace rest (TITLE @ g1) [])) \<and>
     (\<forall>k<length pre. \<not> (prefix TITLE (drop k part) \<and>
          takeWhile (\<lambda>x. x \<noteq> 10) (drop (k + length TITLE) part) \<noteq> [])) \<and>
     make_article md part =
       \<lparr>title = strip g1, content = md (pre @ str_replace post (TITLE @ g1) [])\<rparr> \<and>
     make_article md part \<in> set (split_articles md doc)"
proof -
  from title_search_complete[OF assms(3,4)] obtain g0 g1 where
    s: "title_search part = Some (g0, g1)" by blast
  from titled_article[OF s, of md] obtain pre post where
    p: "part = pre @ TITLE @ g1 @ post" "g0 = TITLE @ g1" "g1 \<noteq> []" "10 \<notin> set g1"
      "post = [] \<or> hd post = 10"
      "\<forall>k<length pre. \<not> (prefix TITLE (drop k part) \<and>
          takeWhile (\<lambda>x. x \<noteq> 10) (drop (k + length TITLE) part) \<noteq> [])"
      "make_article md part = \<lparr>title = strip g1, content = md (pre @ str_replace post g0 [])\<rparr>"
    by blast
  have "post = [] \<or>
      (\<exists>rest. post = 10 # rest \<and> str_replace post g0 [] = 10 # str_replace rest g0 [])"
  proof (cases post)
    case Nil
    then show ?thesis by simp
  next
    case (Cons y rest)
    with p(5) have y: "post = 10 # rest" by simp
    have "g0 \<noteq> []" "\<not> prefix g0 (10 # rest)" using p(2) by (simp_all add: TITLE_def)
    then have "str_replace (10 # rest) g0 [] = 10 # str_replace rest g0 []"
      by (subst str_replace.simps) simp
    with y show ?thesis by simp
  qed
  with p kept_part_article[OF assms(1,2), of md] show ?thesis unfolding p(2) by blast
qed

text \<open>
  C5 as stated fails in two ways. When the token stands in the middle of a line, the part
  of the line before it stays in the body, so the line is not removed whole. When nothing
  follows the token on its line, the expression does not match: the title is the
  fallback title, not the empty remainder, and the title line stays in the body.
\<close>

theorem title_line_not_removed_whole:
  "contains midtitle_text TITLE \<and>
   split_articles id midtitle_text =
     [\<lparr>title = u ''Foo'', content = HEADER @ u ''.1 '' @ [10] @ u ''body''\<rparr>] \<and>
   spec_body midtitle_text = u ''body'' \<and>
   map content (split_articles id midtitle_text) \<noteq> [spec_body midtitle_text] \<and>
   contains untitled_text TITLE \<and>
   split_articles id untitled_text =
     [\<lparr>title = [0x8A18, 0x4E8B] @ u ''Vol.1'', content = untitled_text\<rparr>] \<and>
   spec_title untitled_text = Some [] \<and>
   spec_body untitled_text = HEADER @ u ''.1'' @ [10] @ u ''body'' \<and>
   map (\<lambda>a. Some (title a)) (split_articles id untitled_text) \<noteq> [spec_title untitled_text] \<and>
   map content (split_articles id untitled_text) \<noteq> [spec_body untitled_text]"
  by (simp add: midtitle_text_def untitled_text_def split_articles_def make_article_def skipped_def
        spec_body_def HEADER_def TITLE_def u_def strip_def isspace_def str_replace.simps Let_def)

text \<open>
  The first section of the sample document.
\<close>

theorem title_text_removed_from_body_witness:
  "first_part \<in> set (re_split HEADER [] two_articles) \<and> \<not> skipped first_part \<and>
   first_part = (HEADER @ u ''.1'' @ [10]) @ TITLE @ 70 # (u ''irst'' @ [10] @ u ''alpha'' @ [10]) \<and>
   (70 :: nat) \<noteq> 10 \<and>
   make_article id first_part \<in> set (split_articles id two_articles) \<and>
   make_article id first_part =
     \<lparr>title = u ''First'', content = HEADER @ u ''.1'' @ [10, 10] @ u ''alpha'' @ [10]\<rparr>"
proof -
  have h1: "first_part \<in> set (re_split HEADER [] two_articles)"
    by (simp add: first_part_def two_articles_def HEADER_def TITLE_def u_def)
  have h2: "\<not> skipped first_part"
    by (simp add: first_part_def skipped_def HEADER_def TITLE_def u_def strip_def isspace_def)
  have h3: "first_part = (HEADER @ u ''.1'' @ [10]) @ TITLE @ 70 # (u ''irst'' @ [10] @ u ''alpha'' @ [10])"
    by (simp add: first_part_def u_def)
  have h4: "(70 :: nat) \<noteq> 10" by simp
  have v: "make_article id first_part =
     \<lparr>title = u ''First'', content = HEADER @ u ''.1'' @ [10, 10] @ u ''alpha'' @ [10]\<rparr>"
    by (simp add: first_part_def make_article_def HEADER_def TITLE_def u_def strip_def isspace_def
          str_replace.simps Let_def)
  from title_text_removed_from_body[OF h1 h2 h3 h4, of id]
  have "make_article id first_part \<in> set (split_articles id two_articles)" by blast
  with h1 h2 h3 h4 v show ?thesis by blast
qed

section \<open>Running the enricher twice\<close>

text \<open>
  An entry marker line with an image reference under it: the two lines are copied as they
  are, nothing is inserted between them, and no source is asked for the marker.
\<close>

lemma enriched_marker_untouched:
  assumes "pattern_match m = Some (jp, en)" and "startswith (strip img) (u ''!['')"
  shows "new_lines_of sv (pre @ m # img # post) =
           new_lines_of sv pre @ [m] @ new_lines_of sv (img # post) \<and>
         events_of sv (pre @ m # img # post) =
           events_of sv pre @ [Print (u ''Skipping '' @ en @ u '', image already present.'')] @
           events_of sv (img # post) \<and>
         (\<exists>rest. new_lines_of sv (img # post) = img # rest)"
proof -
  have f: "image_follows (img # post)" using assms(2) by (simp add: image_follows_def)
  have "scan_line sv m (img # post) =
      ([m], [Print (u ''Skipping '' @ en @ u '', image already present.'')])"
    using assms(1) f by (simp add: scan_line_def)
  then have 1: "scan_lines sv (m # img # post) =
      (m # fst (scan_lines sv (img # post)),
       Print (u ''Skipping '' @ en @ u '', image already present.'') # snd (scan_lines sv (img # post)))"
    by (simp add: split_def Let_def)
  have "\<exists>a e. scan_line sv img post = (img # a, e)"
    by (simp add: scan_line_def Let_def split_def split: option.splits)
  then have 2: "\<exists>rest. fst (scan_lines sv (img # post)) = img # rest"
    by (auto simp: split_def Let_def)
  from scan_lines_append[OF marker_not_image[OF assms(1)], of sv pre "img # post"] 1 2
  show ?thesis by (simp add: new_lines_of_scan events_of_scan)
qed

text \<open>
  C1. Idempotence asks that a second run, with the sources answering as in the first,
  leave the file as the first run wrote it. It fails on a document whose last line is an
  entry marker without line terminator: the first run writes the reference on the line of
  the marker itself; in the second run that line still matches the entry pattern, no
  image line follows it, and the reference is inserted once more.
\<close>

theorem second_run_inserts_again:
  "map_sum id fst (process_file sample_services (u ''photo_history.md'')
      [u ''photo_history.md'' \<mapsto> last_text]) = Inr [u ''photo_history.md'' \<mapsto> once_text] \<and>
   map_sum id fst (process_file sample_services (u ''photo_history.md'')
      [u ''photo_history.md'' \<mapsto> once_text]) = Inr [u ''photo_history.md'' \<mapsto> twice_text] \<and>
   once_text \<noteq> twice_text"
proof -
  have a: "lookup_image sample_services [0x571F, 0x9580, 0x62F3] (u ''Ken Domon'') =
     ([domon_image @ [10]],
      [Print (u ''Found photographer: Ken Domon''), Print (u ''Searching Wikimedia for: Ken Domon''),
       WikimediaGet (u ''Ken Domon''), Print (u ''Found image: https://img.example/domon.jpg'')])"
    by (simp add: lookup_image_def fetch_wikimedia_image_def truthy_def sample_services_def
          image_line_def domon_image_def u_def)
  have m1: "pattern_match domon_entry = Some ([0x571F, 0x9580, 0x62F3], u ''Ken Domon'')"
    by (simp add: pattern_match_def pattern_def sample_defs isspace_def)
  have m2: "pattern_match (domon_entry @ domon_image) = Some ([0x571F, 0x9580, 0x62F3], u ''Ken Domon'')"
    by (simp add: pattern_match_def pattern_def sample_defs domon_image_def isspace_def)
  have m3: "pattern_match (u ''# Photographers'' @ [10]) = None" "pattern_match [10] = None"
    by (simp_all add: pattern_match_def pattern_def u_def isspace_def)
  have r1: "readlines last_text = [u ''# Photographers'' @ [10], domon_entry]"
    by (simp add: readlines_def sample_defs)
  have r2: "readlines once_text = [u ''# Photographers'' @ [10], domon_entry @ domon_image, [10]]"
    by (simp add: readlines_def once_text_def domon_image_def sample_defs)
  have f: "\<not> image_follows [[10]]" "\<not> image_follows []" "\<not> image_follows [domon_entry]"
    "\<not> image_follows [domon_entry @ domon_image, [10]]"
    by (simp_all add: image_follows_def startswith_def strip_def isspace_def sample_defs
          domon_image_def)
  have 1: "new_lines_of sample_services (readlines last_text) =
      [u ''# Photographers'' @ [10], domon_entry, domon_image @ [10]]"
    by (simp add: r1 new_lines_of_scan scan_line_def m1 m3 f a)
  have 2: "new_lines_of sample_services (readlines once_text) =
      [u ''# Photographers'' @ [10], domon_entry @ domon_image, domon_image @ [10], [10]]"
    by (simp add: r2 new_lines_of_scan scan_line_def m2 m3 f a)
  have 3: "once_text \<noteq> twice_text"
    by (simp add: once_text_def twice_text_def domon_image_def u_def)
  from 1 2 3 show ?thesis
    by (simp add: process_file_Some once_text_def twice_text_def last_text_def)
qed

section \<open>Documents whose lines are terminated\<close>

lemma split_lines_line:
  "10 \<notin> set b \<Longrightarrow> split_lines cur (b @ 10 # s) = (cur @ b @ [10]) # split_lines [] s"
  by (induction b arbitrary: cur) auto

lemma universal_newlines_id: "13 \<notin> set s \<Longrightarrow> universal_newlines s = s"
  by (induction s rule: universal_newlines.induct) auto

lemma split_lines_concat:
  "\<forall>l\<in>set ls. terminated l \<Longrightarrow> split_lines [] (concat ls) = ls"
proof (induction ls)
  case Nil
  then show ?case by simp
next
  case (Cons l ls)
  then obtain b where "l = b @ [10]" "10 \<notin> set b" by (auto simp: terminated_def)
  with Cons show ?case using split_lines_line[of b "[]" "concat ls"] by simp
qed

lemma readlines_concat:
  assumes "\<forall>l\<in>set ls. terminated l"
  shows "readlines (concat ls) = ls"
proof -
  have "13 \<notin> set (concat ls)" using assms by (auto simp: terminated_def)
  then show ?thesis using assms by (simp add: readlines_def universal_newlines_id split_lines_concat)
qed

lemma lazyD:
  "lazy k c taken s = Some r \<Longrightarrow>
   \<exists>t s'. t \<noteq> [] \<and> (\<forall>x\<in>set t. in_class c x) \<and> s = t @ s' \<and> k (taken @ t) s' = Some r"
proof (induction s arbitrary: taken)
  case Nil
  then show ?case by simp
next
  case (Cons x s)
  then have x: "in_class c x" by (auto split: if_splits)
  show ?case
  proof (cases "k (taken @ [x]) s")
    case (Some r')
    with Cons.prems x have "k (taken @ [x]) s = Some r" by simp
    then have "[x] \<noteq> [] \<and> (\<forall>y\<in>set [x]. in_class c y) \<and> x # s = [x] @ s \<and> k (taken @ [x]) s = Some r"
      using x by simp
    then show ?thesis by blast
  next
    case None
    with Cons.prems x have "lazy k c (taken @ [x]) s = Some r" by simp
    from Cons.IH[OF this] obtain t s' where
      "t \<noteq> []" "\<forall>y\<in>set t. in_class c y" "s = t @ s'" "k ((taken @ [x]) @ t) s' = Some r" by blast
    then have "x # t \<noteq> [] \<and> (\<forall>y\<in>set (x # t). in_class c y) \<and> x # s = (x # t) @ s' \<and>
        k (taken @ (x # t)) s' = Some r"
      using x by simp
    then show ?thesis by blast
  qed
qed

lemma rx_match_groups:
  "rx_match rs s g = Some r \<Longrightarrow> \<forall>cl. LazyGroup cl \<in> set rs \<longrightarrow> cl = Dot \<Longrightarrow>
   \<exists>caps. r = g @ caps \<and> (\<forall>c\<in>set caps. set c \<subseteq> set s \<and> 10 \<notin> set c)"
proof (induction rs arbitrary: s g)
  case Nil
  then show ?case by simp
next
  case (Cons a rs)
  have dots: "\<forall>cl. LazyGroup cl \<in> set rs \<longrightarrow> cl = Dot" using Cons.prems(2) by simp
  show ?case
  proof (cases a)
    case (One c)
    with Cons.prems(1) obtain x s' where s: "s = x # s'" and m: "rx_match rs s' g = Some r"
      by (auto dest: rx_match_OneD)
    from Cons.IH[OF m dots] s show ?thesis by fastforce
  next
    case (Star c)
    with Cons.prems(1) have "greedy (\<lambda>s'. rx_match rs s' g) c s = Some r" by simp
    from greedyD[OF this] obtain ws s' where s: "s = ws @ s'" and m: "rx_match rs s' g = Some r"
      by blast
    from Cons.IH[OF m dots] s show ?thesis by fastforce
  next
    case (Plus c)
    with Cons.prems(1) obtain x s0 where s: "s = x # s0"
      and m0: "greedy (\<lambda>s'. rx_match rs s' g) c s0 = Some r"
      by (cases s) (auto split: if_splits)
    from greedyD[OF m0] obtain ws s' where s0: "s0 = ws @ s'" and m: "rx_match rs s' g = Some r"
      by blast
    from Cons.IH[OF m dots] s s0 show ?thesis by fastforce
  next
    case (LazyGroup c)
    with Cons.prems(2) have c: "c = Dot" by simp
    from LazyGroup Cons.prems(1) have "lazy (\<lambda>taken s'. rx_match rs s' (g @ [taken])) c [] s = Some r"
      by simp
    from lazyD[OF this] obtain t s' where t: "\<forall>x\<in>set t. in_class c x" and s: "s = t @ s'"
      and m: "rx_match rs s' (g @ [t]) = Some r" by auto
    from Cons.IH[OF m dots] obtain caps where
      caps: "r = (g @ [t]) @ caps" "\<forall>c\<in>set caps. set c \<subseteq> set s' \<and> 10 \<notin> set c" by blast
    have "r = g @ (t # caps)" using caps(1) by simp
    moreover have "\<forall>c\<in>set (t # caps). set c \<subseteq> set s \<and> 10 \<notin> set c"
      using caps(2) t s c by auto
    ultimately show ?thesis by blast
  qed
qed

lemma pattern_match_names:
  assumes "pattern_match m = Some (jp, en)"
  shows "set jp \<subseteq> set m \<and> 10 \<notin> set jp \<and> set en \<subseteq> set m \<and> 10 \<notin> set en"
proof -
  have "\<forall>cl. LazyGroup cl \<in> set pattern \<longrightarrow> cl = Dot" by (simp add: pattern_def)
  from rx_match_groups[OF pattern_match_SomeD[OF assms] this]
  show ?thesis by auto
qed

lemma image_never_marker: "pattern_match (33 # s) = None"
proof (cases "pattern_match (33 # s)")
  case None
  then show ?thesis .
next
  case (Some p)
  obtain jp en where "p = (jp, en)" by (cases p)
  with Some marker_head[of "33 # s" jp en] obtain ws t where
    "33 # s = ws @ 42 # 42 # t" "\<forall>x\<in>set ws. isspace x" by blast
  then have False by (cases ws) (auto simp: isspace_def)
  then show ?thesis ..
qed

lemma blank_never_marker: "pattern_match [10] = None"
  by (simp add: pattern_match_def pattern_def isspace_def)

lemma strip_Cons: "\<not> isspace c \<Longrightarrow> strip (c # s) = c # rev (dropWhile isspace (rev s))"
  by (simp add: strip_def dropWhile_append)

lemma image_follows_ref: "image_follows ((33 # 91 # s) # rest)"
proof -
  have "\<not> isspace 33" "\<not> isspace 91" by (simp_all add: isspace_def)
  then have "strip (33 # 91 # s) = 33 # 91 # rev (dropWhile isspace (rev s))"
    by (simp add: strip_def dropWhile_append)
  then show ?thesis by (simp add: image_follows_def startswith_def u_def)
qed

lemma fst_scan_lines_Cons:
  "fst (scan_lines sv (l # rest)) = fst (scan_line sv l rest) @ fst (scan_lines sv rest)"
  by (simp add: split_def Let_def)

lemma fst_scan_line:
  "fst (scan_line sv l rest) =
     (case pattern_match l of
        None \<Rightarrow> [l]
      | Some (jp, en) \<Rightarrow>
          if image_follows rest then [l]
          else l # (case found_image sv en of Some url \<Rightarrow> [image_line jp en url] | None \<Rightarrow> []))"
  by (simp add: scan_line_def split_def Let_def lookup_image_found split: option.splits)

lemma image_follows_Cons: "image_follows (l # xs) = image_follows (l # ys)"
  by (simp add: image_follows_def)

lemma terminated_blank: "terminated [10]"
  by (simp add: terminated_def)

lemma terminated_reference:
  assumes "pattern_match l = Some (jp, en)" and "terminated l"
    and "10 \<notin> set url" and "13 \<notin> set url"
  shows "terminated (u ''!['' @ jp @ u '' ('' @ en @ u '')]('' @ url @ u '')'' @ [10])"
proof -
  from assms(2) have "13 \<notin> set l" by (auto simp: terminated_def)
  with pattern_match_names[OF assms(1)] have
    "10 \<notin> set jp" "13 \<notin> set jp" "10 \<notin> set en" "13 \<notin> set en" by auto
  with assms(3,4) have
    "10 \<notin> set (u ''!['' @ jp @ u '' ('' @ en @ u '')]('' @ url @ u '')'') \<and>
     13 \<notin> set (u ''!['' @ jp @ u '' ('' @ en @ u '')]('' @ url @ u '')'')"
    by (simp add: u_def)
  then show ?thesis unfolding terminated_def
    by (intro exI[of _ "u ''!['' @ jp @ u '' ('' @ en @ u '')]('' @ url @ u '')''"]) simp
qed

text \<open>
  The lines of the file after a first run: they are terminated, they are what the run
  wrote, and the loop leaves them as they are.
\<close>

lemma second_scan_fixed:
  assumes "single_line_urls sv" and "\<forall>l\<in>set lines. terminated l"
  shows "\<exists>again. (\<forall>l\<in>set again. terminated l) \<and>
           concat again = concat (fst (scan_lines sv lines)) \<and>
           fst (scan_lines sv again) = again \<and>
           image_follows again = image_follows lines"
  using assms(2)
proof (induction lines)
  case Nil
  have "(\<forall>l\<in>set []. terminated l) \<and> concat [] = concat (fst (scan_lines sv [])) \<and>
      fst (scan_lines sv []) = [] \<and> image_follows [] = image_follows []" by simp
  then show ?case by blast
next
  case (Cons l rest)
  then have tl: "terminated l" by simp
  from Cons obtain again where a: "\<forall>l\<in>set again. terminated l"
    "concat again = concat (fst (scan_lines sv rest))" "fst (scan_lines sv again) = again"
    "image_follows again = image_follows rest" by auto
  let ?goal = "\<lambda>xs. (\<forall>l\<in>set xs. terminated l) \<and>
           concat xs = concat (fst (scan_lines sv (l # rest))) \<and>
           fst (scan_lines sv xs) = xs \<and> image_follows xs = image_follows (l # rest)"
  show ?case
  proof (cases "pattern_match l")
    case None
    have "?goal (l # again)"
      using a tl None image_follows_Cons[of l again rest]
      by (simp add: fst_scan_lines_Cons fst_scan_line del: scan_lines.simps(2))
    then show ?thesis by blast
  next
    case (Some p)
    obtain jp en where p: "pattern_match l = Some (jp, en)" using Some by (cases p) auto
    show ?thesis
    proof (cases "image_follows rest \<or> found_image sv en = None")
      case True
      have "?goal (l # again)"
        using a tl p True image_follows_Cons[of l again rest]
        by (auto simp: fst_scan_lines_Cons fst_scan_line simp del: scan_lines.simps(2))
      then show ?thesis by blast
    next
      case False
      then obtain url where f: "\<not> image_follows rest" "found_image sv en = Some url" by auto
      with assms(1) have url: "10 \<notin> set url" "13 \<notin> set url"
        by (auto simp: single_line_urls_def)
      let ?ref = "u ''!['' @ jp @ u '' ('' @ en @ u '')]('' @ url @ u '')'' @ [10]"
      have il: "image_line jp en url = ?ref @ [10]" by (simp add: image_line_def)
      have tr: "terminated ?ref" using terminated_reference[OF p tl url] .
      have r33: "\<exists>s. ?ref = 33 # 91 # s" by (simp add: u_def)
      then have nm: "pattern_match ?ref = None" using image_never_marker by auto
      from r33 have fo: "image_follows (?ref # [10] # again)" using image_follows_ref by auto
      have 1: "fst (scan_lines sv (l # rest)) = l # (?ref @ [10]) # fst (scan_lines sv rest)"
        using p f il by (simp add: fst_scan_lines_Cons fst_scan_line del: scan_lines.simps(2))
      have 2: "fst (scan_lines sv (l # ?ref # [10] # again)) = l # ?ref # [10] # again"
        using p fo nm blank_never_marker a(3)
        by (simp add: fst_scan_lines_Cons fst_scan_line del: append.simps scan_lines.simps(2))
      have "?goal (l # ?ref # [10] # again)"
        using a(1,2) tl tr terminated_blank 1 2 image_follows_Cons[of l "?ref # [10] # again" rest]
        by (simp del: scan_lines.simps(2))
      then show ?thesis by blast
    qed
  qed
qed

lemma universal_newlines_no_cr: "13 \<notin> set (universal_newlines s)"
  by (induction s rule: universal_newlines.induct) auto

lemma universal_newlines_last:
  "s \<noteq> [] \<Longrightarrow> last s = 10 \<Longrightarrow>
   universal_newlines s \<noteq> [] \<and> last (universal_newlines s) = 10"
  by (induction s rule: universal_newlines.induct) (auto split: if_splits)

lemma split_lines_terminated:
  "10 \<notin> set cur \<Longrightarrow> 13 \<notin> set cur \<Longrightarrow> 13 \<notin> set s \<Longrightarrow> (s = [] \<longrightarrow> cur = []) \<Longrightarrow>
   (s \<noteq> [] \<longrightarrow> last s = 10) \<Longrightarrow> \<forall>l\<in>set (split_lines cur s). terminated l"
proof (induction s arbitrary: cur)
  case Nil
  then show ?case by simp
next
  case (Cons c cs)
  show ?case
  proof (cases "c = 10")
    case True
    have "terminated (cur @ [10])" using Cons.prems(1,2) by (auto simp: terminated_def)
    moreover have "\<forall>l\<in>set (split_lines [] cs). terminated l"
      using Cons.prems(3,5) by (intro Cons.IH) (auto split: if_splits)
    ultimately show ?thesis using True by simp
  next
    case False
    with Cons.prems(5) have "cs \<noteq> []" by auto
    with False Cons.prems have "\<forall>l\<in>set (split_lines (cur @ [c]) cs). terminated l"
      by (intro Cons.IH) (auto split: if_splits)
    with False show ?thesis by simp
  qed
qed

lemma readlines_terminated:
  assumes "doc = [] \<or> last doc = 10"
  shows "\<forall>l\<in>set (readlines doc). terminated l"
proof (cases "doc = []")
  case True
  then show ?thesis by (simp add: readlines_def)
next
  case False
  with assms universal_newlines_last[of doc]
  have "universal_newlines doc \<noteq> [] \<and> last (universal_newlines doc) = 10" by simp
  then show ?thesis unfolding readlines_def
    by (intro split_lines_terminated) (simp_all add: universal_newlines_no_cr)
qed

text \<open>
  Away from the failing case of C1 enrichment is idempotent: on a document that is empty
  or ends with a line terminator, with sources that give single-line URLs, the second
  run writes the file that the first run wrote.
\<close>

lemma second_run_same:
  assumes "single_line_urls sv" and "fs path = Some doc" and "doc = [] \<or> last doc = 10"
  shows "\<exists>fs1 ev1 ev2. process_file sv path fs = Inr (fs1, ev1) \<and>
           process_file sv path fs1 = Inr (fs1, ev2)"
proof -
  let ?out = "new_lines_of sv (readlines doc)"
  let ?fs1 = "fs(path \<mapsto> concat ?out)"
  from second_scan_fixed[OF assms(1) readlines_terminated[OF assms(3)]]
  obtain again where a: "\<forall>l\<in>set again. terminated l" "concat again = concat ?out"
    "new_lines_of sv again = again"
    by (auto simp: new_lines_of_scan)
  have r: "readlines (concat ?out) = again"
    using readlines_concat[OF a(1)] a(2) by simp
  have 1: "process_file sv path fs =
      Inr (?fs1, events_of sv (readlines doc) @
        [FileWrite path (concat ?out), Print (u ''Phase 1: Image injection complete.'')])"
    using process_file_Some[where fs = fs and path = path and doc = doc and sv = sv, OF assms(2)] .
  have "?fs1 path = Some (concat ?out)" by simp
  from process_file_Some[where fs = "?fs1" and path = path and doc = "concat ?out" and sv = sv, OF this]
  have 2: "process_file sv path ?fs1 =
      Inr (?fs1, events_of sv again @
        [FileWrite path (concat ?out), Print (u ''Phase 1: Image injection complete.'')])"
    by (simp add: r a)
  from 1 2 show ?thesis by blast
qed

section \<open>Lines of the file written\<close>

text \<open>
  The lines read are the text of the document after the translation of its line
  terminators; none of them ends with two newlines, while every inserted element does.
\<close>

lemma concat_split_lines: "concat (split_lines cur s) = cur @ s"
  by (induction s arbitrary: cur) auto

lemma concat_readlines: "concat (readlines doc) = universal_newlines doc"
  by (simp add: readlines_def concat_split_lines)

lemma split_lines_one_newline:
  "10 \<notin> set cur \<Longrightarrow> \<forall>l\<in>set (split_lines cur s). 10 \<notin> set (butlast l)"
proof (induction s arbitrary: cur)
  case Nil
  then show ?case by (auto dest: in_set_butlastD)
next
  case (Cons c cs)
  show ?case
  proof (cases "c = 10")
    case True
    have "\<forall>l\<in>set (split_lines [] cs). 10 \<notin> set (butlast l)" by (rule Cons.IH) simp
    with True Cons.prems show ?thesis by simp
  next
    case False
    have "\<forall>l\<in>set (split_lines (cur @ [c]) cs). 10 \<notin> set (butlast l)"
      using Cons.prems False by (intro Cons.IH) simp
    with False show ?thesis by simp
  qed
qed

lemma readlines_no_blank_end: "\<forall>l\<in>set (readlines doc). \<not> suffix [10, 10] l"
proof
  fix l assume "l \<in> set (readlines doc)"
  then have b: "10 \<notin> set (butlast l)"
    using split_lines_one_newline[of "[]" "universal_newlines doc"] by (simp add: readlines_def)
  show "\<not> suffix [10, 10] l"
  proof
    assume "suffix [10, 10] l"
    then obtain xs where "l = xs @ [10, 10]" by (auto simp: suffix_def)
    then have "butlast l = xs @ [10]" by (simp add: butlast_append)
    with b show False by simp
  qed
qed

lemma image_line_blank_end: "suffix [10, 10] (image_line jp en url)"
  by (simp add: image_line_def suffix_def)

lemma scan_lines_keeps_lines:
  "\<forall>l\<in>set lines. \<not> suffix [10, 10] l \<Longrightarrow>
   filter (\<lambda>e. \<not> suffix [10, 10] e) (fst (scan_lines sv lines)) = lines"
proof (induction lines)
  case Nil
  then show ?case by simp
next
  case (Cons l rest)
  have "filter (\<lambda>e. \<not> suffix [10, 10] e) (fst (scan_line sv l rest)) = [l]"
    using Cons.prems image_line_blank_end
    by (auto simp: fst_scan_line split: option.splits)
  with Cons show ?case by (simp add: fst_scan_lines_Cons del: scan_lines.simps(2))
qed

text \<open>Reading a text that is built from terminated pieces.\<close>

lemma universal_newlines_append:
  "a \<noteq> [] \<Longrightarrow> last a = 10 \<Longrightarrow>
   universal_newlines (a @ b) = universal_newlines a @ universal_newlines b"
proof (induction a rule: universal_newlines.induct)
  case 1
  then show ?case by simp
next
  case (2 c)
  then show ?case by (cases b) simp_all
next
  case (3 c d cs)
  show ?case
  proof (cases "cs = []")
    case True
    with "3.prems" have d: "d = 10" by simp
    show ?thesis using True d by (cases b) (simp_all)
  next
    case False
    then obtain e es where cs: "cs = e # es" by (cases cs) auto
    have l: "last cs = 10" "last (d # cs) = 10" using "3.prems" False by simp_all
    show ?thesis
      using "3.IH"(1)[OF _ False l(1)] "3.IH"(2)[OF _ _ _ l(2)] "3.IH"(3)[OF _ _ _ l(2)] cs
      by (cases "c = 13 \<and> d = 10"; cases "c = 13") simp_all
  qed
qed

lemma split_lines_append:
  "a \<noteq> [] \<Longrightarrow> last a = 10 \<Longrightarrow> split_lines cur (a @ b) = split_lines cur a @ split_lines [] b"
proof (induction a arbitrary: cur)
  case Nil
  then show ?case by simp
next
  case (Cons c a)
  show ?case
  proof (cases "a = []")
    case True
    with Cons.prems show ?thesis by simp
  next
    case False
    with Cons.prems have "last a = 10" by simp
    with Cons.IH False show ?thesis by simp
  qed
qed

lemma readlines_append:
  assumes "a = [] \<or> last a = 10"
  shows "readlines (a @ b) = readlines a @ readlines b"
proof (cases "a = []")
  case True
  then show ?thesis by (simp add: readlines_def)
next
  case False
  with assms have l: "last a = 10" by simp
  from universal_newlines_last[OF False l] universal_newlines_append[OF False l, of b]
  show ?thesis by (simp add: readlines_def split_lines_append)
qed

lemma last_concat_newline:
  "\<forall>e\<in>set es. e \<noteq> [] \<and> last e = 10 \<Longrightarrow> concat es = [] \<or> last (concat es) = 10"
proof (induction es rule: rev_induct)
  case Nil
  then show ?case by simp
next
  case (snoc e es)
  then show ?case by simp
qed

lemma readlines_concat_map:
  "\<forall>e\<in>set (butlast es). e \<noteq> [] \<and> last e = 10 \<Longrightarrow>
   readlines (concat es) = concat (map readlines es)"
proof (induction es)
  case Nil
  then show ?case by (simp add: readlines_def)
next
  case (Cons e es)
  show ?case
  proof (cases "es = []")
    case True
    then show ?thesis by simp
  next
    case False
    with Cons.prems have e: "e \<noteq> [] \<and> last e = 10"
      and r: "\<forall>x\<in>set (butlast es). x \<noteq> [] \<and> last x = 10" by simp_all
    from e have "readlines (e @ concat es) = readlines e @ readlines (concat es)"
      by (intro readlines_append) simp
    with Cons.IH[OF r] show ?thesis by simp
  qed
qed

lemma split_lines_no_empty: "[] \<notin> set (split_lines cur s)"
  by (induction s arbitrary: cur) auto

lemma split_lines_single:
  "l \<noteq> [] \<Longrightarrow> 10 \<notin> set (butlast l) \<Longrightarrow> split_lines cur l = [cur @ l]"
proof (induction l arbitrary: cur)
  case Nil
  then show ?case by simp
next
  case (Cons c l)
  show ?case
  proof (cases "l = []")
    case True
    then show ?thesis by simp
  next
    case False
    with Cons.prems have "c \<noteq> 10" "10 \<notin> set (butlast l)" by simp_all
    with Cons.IH[OF False, of "cur @ [c]"] show ?thesis by simp
  qed
qed

lemma line_no_cr: "l \<in> set (readlines doc) \<Longrightarrow> 13 \<notin> set l"
proof -
  assume "l \<in> set (readlines doc)"
  then have "set l \<subseteq> set (concat (readlines doc))" by auto
  then show ?thesis using universal_newlines_no_cr[of doc] by (auto simp: concat_readlines)
qed

lemma line_readlines:
  assumes "l \<in> set (readlines doc)"
  shows "readlines l = [l]"
proof -
  have "l \<noteq> []" using assms split_lines_no_empty by (auto simp: readlines_def)
  moreover have "10 \<notin> set (butlast l)"
    using assms split_lines_one_newline[of "[]" "universal_newlines doc"]
    by (simp add: readlines_def)
  ultimately have "split_lines [] l = [l]" using split_lines_single[of l "[]"] by simp
  then show ?thesis using line_no_cr[OF assms] by (simp add: readlines_def universal_newlines_id)
qed

lemma split_lines_butlast:
  "\<forall>l\<in>set (butlast (split_lines cur s)). l \<noteq> [] \<and> last l = 10"
proof (induction s arbitrary: cur)
  case Nil
  then show ?case by simp
next
  case (Cons c cs)
  show ?case
  proof (cases "c = 10")
    case True
    with Cons.IH[of "[]"] show ?thesis by (auto dest: in_set_butlastD split: if_splits)
  next
    case False
    with Cons.IH[of "cur @ [c]"] show ?thesis by simp
  qed
qed

lemma readlines_butlast: "\<forall>l\<in>set (butlast (readlines doc)). l \<noteq> [] \<and> last l = 10"
  by (simp add: readlines_def split_lines_butlast)

text \<open>The elements written, and the lines of their concatenation.\<close>

lemma marker_not_empty: "pattern_match l = Some p \<Longrightarrow> l \<noteq> []"
proof -
  assume a: "pattern_match l = Some p"
  obtain jp en where "p = (jp, en)" by (cases p)
  with a marker_head[of l jp en] show ?thesis by auto
qed

lemma image_line_newline: "image_line jp en url \<noteq> [] \<and> last (image_line jp en url) = 10"
  by (simp add: image_line_def)

lemma scan_line_shape:
  "\<exists>added. fst (scan_line sv l rest) = l # added \<and>
     (added = [] \<or> (pattern_match l \<noteq> None \<and> (\<exists>jp en url. added = [image_line jp en url])))"
  by (auto simp: fst_scan_line split: option.splits)

lemma scan_lines_Nil_iff: "fst (scan_lines sv lines) = [] \<longleftrightarrow> lines = []"
proof (cases lines)
  case Nil
  then show ?thesis by simp
next
  case (Cons l rest)
  obtain added where "fst (scan_line sv l rest) = l # added" using scan_line_shape by blast
  with Cons show ?thesis by (simp add: fst_scan_lines_Cons del: scan_lines.simps(2))
qed

lemma scan_all_newline:
  "\<forall>l\<in>set lines. l \<noteq> [] \<and> last l = 10 \<Longrightarrow>
   \<forall>e\<in>set (fst (scan_lines sv lines)). e \<noteq> [] \<and> last e = 10"
proof (induction lines)
  case Nil
  then show ?case by simp
next
  case (Cons l rest)
  obtain added where a: "fst (scan_line sv l rest) = l # added"
    "added = [] \<or> (\<exists>jp en url. added = [image_line jp en url])"
    using scan_line_shape[of sv l rest] by blast
  from a(2) have "\<forall>e\<in>set added. e \<noteq> [] \<and> last e = 10" by (auto simp: image_line_def)
  with Cons a(1) show ?case by (auto simp: fst_scan_lines_Cons simp del: scan_lines.simps(2))
qed

lemma scan_butlast_newline:
  "\<forall>l\<in>set (butlast lines). l \<noteq> [] \<and> last l = 10 \<Longrightarrow>
   \<forall>l\<in>set lines. pattern_match l \<noteq> None \<longrightarrow> last l = 10 \<Longrightarrow>
   \<forall>e\<in>set (butlast (fst (scan_lines sv lines))). e \<noteq> [] \<and> last e = 10"
proof (induction lines)
  case Nil
  then show ?case by simp
next
  case (Cons l rest)
  obtain added where a: "fst (scan_line sv l rest) = l # added"
    "added = [] \<or> (pattern_match l \<noteq> None \<and> (\<exists>jp en url. added = [image_line jp en url]))"
    using scan_line_shape[of sv l rest] by blast
  have out: "fst (scan_lines sv (l # rest)) = l # added @ fst (scan_lines sv rest)"
    using a(1) by (simp add: fst_scan_lines_Cons del: scan_lines.simps(2))
  show ?case
  proof (cases "rest = []")
    case True
    show ?thesis
    proof (cases "added = []")
      case True
      with \<open>rest = []\<close> out show ?thesis by simp
    next
      case False
      with a(2) obtain jp en url where m: "pattern_match l \<noteq> None" and
        ad: "added = [image_line jp en url]" by blast
      from m Cons.prems(2) have "last l = 10" by simp
      moreover from m have "l \<noteq> []" using marker_not_empty by auto
      ultimately show ?thesis using \<open>rest = []\<close> out ad by simp
    qed
  next
    case False
    then have ne: "fst (scan_lines sv rest) \<noteq> []" by (simp add: scan_lines_Nil_iff)
    from False Cons.prems(1) have l: "l \<noteq> [] \<and> last l = 10"
      and r: "\<forall>x\<in>set (butlast rest). x \<noteq> [] \<and> last x = 10" by simp_all
    from a(2) have ad: "\<forall>e\<in>set added. e \<noteq> [] \<and> last e = 10" by (auto simp: image_line_def)
    have "\<forall>e\<in>set (butlast (fst (scan_lines sv rest))). e \<noteq> [] \<and> last e = 10"
      using r Cons.prems(2) by (intro Cons.IH) simp_all
    with l ad ne out show ?thesis by (auto simp: butlast_append)
  qed
qed

lemma subseq_scan_readlines:
  "\<forall>l\<in>set lines. readlines l = [l] \<Longrightarrow>
   subseq lines (concat (map readlines (fst (scan_lines sv lines))))"
proof (induction lines)
  case Nil
  then show ?case by simp
next
  case (Cons l rest)
  obtain added where a: "fst (scan_line sv l rest) = l # added"
    using scan_line_shape[of sv l rest] by blast
  have "subseq rest (concat (map readlines added) @ concat (map readlines (fst (scan_lines sv rest))))"
    using Cons by (intro subseq_drop_many) simp
  with a Cons.prems show ?case
    by (simp add: fst_scan_lines_Cons del: scan_lines.simps(2))
qed

lemma written_lines:
  assumes "\<forall>l\<in>set (readlines doc). pattern_match l \<noteq> None \<longrightarrow> last l = 10"
  shows "readlines (concat (new_lines_of sv (readlines doc))) =
           concat (map readlines (new_lines_of sv (readlines doc))) \<and>
         subseq (readlines doc) (readlines (concat (new_lines_of sv (readlines doc))))"
proof -
  have "\<forall>e\<in>set (butlast (fst (scan_lines sv (readlines doc)))). e \<noteq> [] \<and> last e = 10"
    using readlines_butlast assms by (rule scan_butlast_newline)
  then have 1: "readlines (concat (new_lines_of sv (readlines doc))) =
           concat (map readlines (new_lines_of sv (readlines doc)))"
    unfolding new_lines_of_scan by (rule readlines_concat_map)
  have "subseq (readlines doc) (concat (map readlines (fst (scan_lines sv (readlines doc)))))"
    by (rule subseq_scan_readlines) (simp add: line_readlines)
  with 1 show ?thesis by (simp add: new_lines_of_scan)
qed

lemma line_terminated:
  assumes "l \<in> set (readlines doc)" and "last l = 10"
  shows "terminated l"
proof -
  have ne: "l \<noteq> []" using assms(1) split_lines_no_empty by (auto simp: readlines_def)
  have b: "10 \<notin> set (butlast l)"
    using assms(1) split_lines_one_newline[of "[]" "universal_newlines doc"]
    by (simp add: readlines_def)
  have c: "13 \<notin> set (butlast l)" using line_no_cr[OF assms(1)] by (auto dest: in_set_butlastD)
  have "l = butlast l @ [10]" using ne assms(2) by (metis append_butlast_last_id)
  with b c show ?thesis unfolding terminated_def by blast
qed

lemma scan_lines_no_result:
  "\<forall>l\<in>set lines. \<forall>jp en. pattern_match l = Some (jp, en) \<longrightarrow>
      no_result (wikimedia sv en) \<and> no_result (google_books sv en) \<Longrightarrow>
   fst (scan_lines sv lines) = lines"
proof (induction lines)
  case Nil
  then show ?case by simp
next
  case (Cons l rest)
  have "fst (scan_line sv l rest) = [l]"
  proof (cases "pattern_match l")
    case None
    then show ?thesis by (simp add: scan_line_def)
  next
    case (Some p)
    obtain jp en where p: "p = (jp, en)" by (cases p)
    with Some Cons.prems have "no_result (wikimedia sv en)" "no_result (google_books sv en)"
      by auto
    then have "fst (lookup_image sv jp en) = []" by (rule lookup_image_none)
    with Some p show ?thesis by (simp add: scan_line_def split_def Let_def)
  qed
  with Cons show ?case by (simp add: fst_scan_lines_Cons del: scan_lines.simps(2))
qed

lemma nobody_match:
  "pattern_match (nobody_entry @ [10]) = Some ([0x7121, 0x540D], u ''Nobody'')"
  by (simp add: pattern_match_def pattern_def nobody_entry_def u_def isspace_def)

section \<open>The reference line in the file written\<close>

text \<open>
  C2, as the code has it. Let the document read, after the translation of its line
  terminators, as the lines \<open>pre\<close>, then an entry marker line \<open>m\<close> with the names \<open>jp\<close>
  and \<open>en\<close>, then the lines \<open>post\<close>, the first of which is not an image reference. Let
  every entry marker line of the document end with a line terminator, and let source A
  return for \<open>en\<close> a non-empty URL without line break. Then the file is rewritten, and the
  lines of the text written are: the lines written for \<open>pre\<close>, the marker line \<open>m\<close>,
  the one reference line \<^verbatim>\<open>![jp (en)](url)\<close>, a blank line, and the lines written for
  \<open>post\<close>, which begin with the first line of \<open>post\<close>. Every line of the document is a
  line of the file written, in its order, unchanged but for its terminator; the lines
  read hold the whole text of the document; and only source A is asked for the marker.
  (An entry marker on a last line without terminator is the case of C1.)
\<close>

theorem reference_line_under_marker:
  assumes "fs path = Some doc" and "readlines doc = pre @ m # post"
    and "pattern_match m = Some (jp, en)" and "\<not> image_follows post"
    and "wikimedia sv en = Returned (Some url)"
    and "url \<noteq> []" and "10 \<notin> set url" and "13 \<notin> set url"
    and "\<forall>l\<in>set (readlines doc). pattern_match l \<noteq> None \<longrightarrow> last l = 10"
  shows "process_file sv path fs =
           Inr (fs(path \<mapsto> concat (new_lines_of sv (readlines doc))),
                events_of sv (readlines doc) @
                [FileWrite path (concat (new_lines_of sv (readlines doc))),
                 Print (u ''Phase 1: Image injection complete.'')]) \<and>
         readlines (concat (new_lines_of sv (readlines doc))) =
           readlines (concat (new_lines_of sv pre)) @
           [m, u ''!['' @ jp @ u '' ('' @ en @ u '')]('' @ url @ u '')'' @ [10], [10]] @
           readlines (concat (new_lines_of sv post)) \<and>
         (post = [] \<or> (\<exists>rest. readlines (concat (new_lines_of sv post)) = hd post # rest)) \<and>
         subseq (readlines doc) (readlines (concat (new_lines_of sv (readlines doc)))) \<and>
         concat (readlines doc) = universal_newlines doc \<and>
         filter is_request (events_of sv (readlines doc)) =
           filter is_request (events_of sv pre) @ [WikimediaGet en] @
           filter is_request (events_of sv post)"
proof -
  let ?ref = "u ''!['' @ jp @ u '' ('' @ en @ u '')]('' @ url @ u '')'' @ [10]"
  note sm = scan_marker[OF assms(3,4), of sv pre]
  note la = lookup_image_A[OF assms(5,6), of jp]
  have out: "new_lines_of sv (readlines doc) =
      new_lines_of sv pre @ [m, image_line jp en url] @ new_lines_of sv post"
    using sm la by (simp add: new_lines_of_scan assms(2))
  have req: "filter is_request (events_of sv (readlines doc)) =
           filter is_request (events_of sv pre) @ [WikimediaGet en] @
           filter is_request (events_of sv post)"
    using sm la by (simp add: events_of_scan assms(2) is_request_def)
  have m_in: "m \<in> set (readlines doc)" by (simp add: assms(2))
  have m_last: "last m = 10" using assms(9,3) m_in by auto
  have m_ne: "m \<noteq> []" using assms(3) by (rule marker_not_empty)
  have m_term: "terminated m" using m_in m_last by (rule line_terminated)
  have ref_term: "terminated ?ref" using terminated_reference[OF assms(3) m_term assms(7,8)] .
  have il: "image_line jp en url = concat [?ref, [10]]" by (simp add: image_line_def)
  have img: "readlines (image_line jp en url) = [?ref, [10]]"
    unfolding il using ref_term terminated_blank by (intro readlines_concat) simp
  have pre_lines: "\<forall>l\<in>set pre. l \<noteq> [] \<and> last l = 10"
    using readlines_butlast[of doc] by (simp add: assms(2) butlast_append)
  then have "\<forall>e\<in>set (new_lines_of sv pre). e \<noteq> [] \<and> last e = 10"
    unfolding new_lines_of_scan by (rule scan_all_newline)
  then have pre_end: "concat (new_lines_of sv pre) = [] \<or> last (concat (new_lines_of sv pre)) = 10"
    by (rule last_concat_newline)
  have "concat (new_lines_of sv (readlines doc)) =
      concat (new_lines_of sv pre) @ (m @ (image_line jp en url @ concat (new_lines_of sv post)))"
    by (simp add: out)
  also have "readlines \<dots> =
      readlines (concat (new_lines_of sv pre)) @
      readlines (m @ (image_line jp en url @ concat (new_lines_of sv post)))"
    using pre_end by (rule readlines_append)
  also have "readlines (m @ (image_line jp en url @ concat (new_lines_of sv post))) =
      readlines m @ readlines (image_line jp en url @ concat (new_lines_of sv post))"
    using m_last by (intro readlines_append) simp
  also have "readlines (image_line jp en url @ concat (new_lines_of sv post)) =
      readlines (image_line jp en url) @ readlines (concat (new_lines_of sv post))"
    by (intro readlines_append) (simp add: image_line_def)
  finally have lines: "readlines (concat (new_lines_of sv (readlines doc))) =
      readlines (concat (new_lines_of sv pre)) @ [m, ?ref, [10]] @
      readlines (concat (new_lines_of sv post))"
    using line_readlines[OF m_in] img by simp
  have post_head: "post = [] \<or> (\<exists>rest. readlines (concat (new_lines_of sv post)) = hd post # rest)"
  proof (cases post)
    case Nil
    then show ?thesis by simp
  next
    case (Cons p ps)
    obtain added where a: "fst (scan_line sv p ps) = p # added"
      using scan_line_shape[of sv p ps] by blast
    have b1: "\<forall>l\<in>set (butlast post). l \<noteq> [] \<and> last l = 10"
      using readlines_butlast[of doc] by (simp add: assms(2) butlast_append Cons)
    have b2: "\<forall>l\<in>set post. pattern_match l \<noteq> None \<longrightarrow> last l = 10"
      using assms(9) by (simp add: assms(2))
    have "\<forall>e\<in>set (butlast (fst (scan_lines sv post))). e \<noteq> [] \<and> last e = 10"
      using b1 b2 by (rule scan_butlast_newline)
    then have "readlines (concat (new_lines_of sv post)) =
        concat (map readlines (new_lines_of sv post))"
      unfolding new_lines_of_scan by (rule readlines_concat_map)
    moreover have "readlines p = [p]"
      by (rule line_readlines[of p doc]) (simp add: assms(2) Cons)
    ultimately show ?thesis using a Cons
      by (simp add: new_lines_of_scan fst_scan_lines_Cons del: scan_lines.simps(2))
  qed
  from written_lines[OF assms(9), of sv] lines post_head req concat_readlines[of doc]
    process_file_Some[where fs = fs and path = path and doc = doc and sv = sv, OF assms(1)]
  show ?thesis by blast
qed

text \<open>
  C2 as stated fails on a document whose lines end with \<^verbatim>\<open>\r\n\<close>. The file is read and
  written in text mode: the reference is inserted under the marker, but every line of
  the file written ends with \<^verbatim>\<open>\n\<close>, so that no line of the document appears in the
  output unchanged.
\<close>

theorem crlf_lines_rewritten:
  "map_sum id fst (process_file sample_services (u ''photo_history.md'')
      [u ''photo_history.md'' \<mapsto> crlf_domon_text]) =
     Inr [u ''photo_history.md'' \<mapsto> domon_out_text] \<and>
   split_lines [] crlf_domon_text =
     [u ''# Photographers'' @ [13, 10], domon_entry @ [13, 10], u ''He made pictures.'' @ [13, 10]] \<and>
   split_lines [] domon_out_text =
     [u ''# Photographers'' @ [10], domon_entry @ [10], domon_image, [10],
      u ''He made pictures.'' @ [10]] \<and>
   u ''# Photographers'' @ [13, 10] \<notin> set (split_lines [] domon_out_text)"
proof -
  have a: "lookup_image sample_services [0x571F, 0x9580, 0x62F3] (u ''Ken Domon'') =
     ([domon_image @ [10]],
      [Print (u ''Found photographer: Ken Domon''), Print (u ''Searching Wikimedia for: Ken Domon''),
       WikimediaGet (u ''Ken Domon''), Print (u ''Found image: https://img.example/domon.jpg'')])"
    by (simp add: lookup_image_def fetch_wikimedia_image_def truthy_def sample_services_def
          image_line_def domon_image_def u_def)
  have r: "readlines crlf_domon_text =
      [u ''# Photographers'' @ [10], domon_entry @ [10], u ''He made pictures.'' @ [10]]"
    by (simp add: readlines_def crlf_domon_text_def domon_entry_def u_def)
  have m: "pattern_match (u ''# Photographers'' @ [10]) = None"
    "pattern_match (u ''He made pictures.'' @ [10]) = None"
    by (simp_all add: pattern_match_def pattern_def u_def isspace_def)
  have f: "\<not> image_follows [u ''He made pictures.'' @ [10]]"
    by (simp add: image_follows_def startswith_def strip_def isspace_def u_def)
  have 1: "new_lines_of sample_services (readlines crlf_domon_text) =
      [u ''# Photographers'' @ [10], domon_entry @ [10], domon_image @ [10],
       u ''He made pictures.'' @ [10]]"
    by (simp add: r new_lines_of_scan scan_line_def domon_match m f a)
  have 2: "split_lines [] crlf_domon_text =
     [u ''# Photographers'' @ [13, 10], domon_entry @ [13, 10], u ''He made pictures.'' @ [13, 10]]"
    by (simp add: crlf_domon_text_def domon_entry_def u_def)
  have 3: "split_lines [] domon_out_text =
     [u ''# Photographers'' @ [10], domon_entry @ [10], domon_image, [10],
      u ''He made pictures.'' @ [10]]"
    by (simp add: domon_out_text_def domon_image_def domon_entry_def u_def)
  have 4: "u ''# Photographers'' @ [13, 10] \<notin> set (split_lines [] domon_out_text)"
    unfolding 3 by (simp add: domon_image_def domon_entry_def u_def)
  from 1 2 3 4 show ?thesis
    by (simp add: process_file_Some domon_out_text_def crlf_domon_text_def)
qed

text \<open>The document of Ken Domon, whose picture source A finds.\<close>

theorem reference_line_under_marker_witness:
  "[u ''photo_history.md'' \<mapsto> domon_text] (u ''photo_history.md'') = Some domon_text \<and>
   readlines domon_text =
     [u ''# Photographers'' @ [10]] @ (domon_entry @ [10]) # [u ''He made pictures.'' @ [10]] \<and>
   pattern_match (domon_entry @ [10]) = Some ([0x571F, 0x9580, 0x62F3], u ''Ken Domon'') \<and>
   \<not> image_follows [u ''He made pictures.'' @ [10]] \<and>
   wikimedia sample_services (u ''Ken Domon'') = Returned (Some (u ''https://img.example/domon.jpg'')) \<and>
   u ''https://img.example/domon.jpg'' \<noteq> [] \<and>
   10 \<notin> set (u ''https://img.example/domon.jpg'') \<and>
   13 \<notin> set (u ''https://img.example/domon.jpg'') \<and>
   map (\<lambda>l. (pattern_match l, last l)) (readlines domon_text) =
     [(None, 10), (Some ([0x571F, 0x9580, 0x62F3], u ''Ken Domon''), 10), (None, 10)] \<and>
   readlines (concat (new_lines_of sample_services (readlines domon_text))) =
     [u ''# Photographers'' @ [10], domon_entry @ [10],
      u ''!['' @ [0x571F, 0x9580, 0x62F3] @ u '' (Ken Domon)](https://img.example/domon.jpg)'' @ [10],
      [10], u ''He made pictures.'' @ [10]]"
proof -
  have h1: "[u ''photo_history.md'' \<mapsto> domon_text] (u ''photo_history.md'') = Some domon_text"
    by simp
  have h2: "readlines domon_text =
     [u ''# Photographers'' @ [10]] @ (domon_entry @ [10]) # [u ''He made pictures.'' @ [10]]"
    by (simp add: readlines_def sample_defs)
  have h4: "\<not> image_follows [u ''He made pictures.'' @ [10]]"
    by (simp add: image_follows_def startswith_def strip_def isspace_def u_def)
  have h5: "wikimedia sample_services (u ''Ken Domon'') =
      Returned (Some (u ''https://img.example/domon.jpg''))"
    by (simp add: sample_defs)
  have h6: "u ''https://img.example/domon.jpg'' \<noteq> []"
    "10 \<notin> set (u ''https://img.example/domon.jpg'')"
    "13 \<notin> set (u ''https://img.example/domon.jpg'')" by (simp_all add: u_def)
  have h9: "\<forall>l\<in>set (readlines domon_text). pattern_match l \<noteq> None \<longrightarrow> last l = 10"
    unfolding h2 by simp
  have e: "readlines (u ''# Photographers'' @ [10]) = [u ''# Photographers'' @ [10]]"
    "readlines (u ''He made pictures.'' @ [10]) = [u ''He made pictures.'' @ [10]]"
    by (simp_all add: readlines_def u_def)
  from reference_line_under_marker[where fs = "[u ''photo_history.md'' \<mapsto> domon_text]"
      and path = "u ''photo_history.md''" and doc = domon_text,
      OF h1 h2 domon_match h4 h5 h6 h9]
  have "readlines (concat (new_lines_of sample_services (readlines domon_text))) =
     [u ''# Photographers'' @ [10], domon_entry @ [10],
      u ''!['' @ [0x571F, 0x9580, 0x62F3] @ u '' (Ken Domon)](https://img.example/domon.jpg)'' @ [10],
      [10], u ''He made pictures.'' @ [10]]"
    by (simp add: plain_lines e) (simp add: u_def)
  moreover have "map (\<lambda>l. (pattern_match l, last l)) (readlines domon_text) =
     [(None, 10), (Some ([0x571F, 0x9580, 0x62F3], u ''Ken Domon''), 10), (None, 10)]"
    unfolding h2 using domon_match by (simp add: pattern_match_def pattern_def u_def isspace_def)
  ultimately show ?thesis using h1 h2 domon_match h4 h5 h6 by blast
qed

section \<open>The second source\<close>

text \<open>
  C3, as the code has it. For an entry marker line with no image reference under it,
  source A is asked first. When A gives no result, source B is asked next, with the same
  name \<open>en\<close>. The element inserted then holds the URL of B, and the file written
  holds what is written for \<open>pre\<close>, the marker line, that reference, and what is
  written for \<open>post\<close>; when B gives no result either, nothing is inserted between the marker line and
  the text written for \<open>post\<close>. The lines of the document are all written, in their
  order: the elements written that are not inserted references are exactly the lines
  read. When no source has a result for any entry of the document, the text written is
  the text of the document, with its line terminators \<^verbatim>\<open>\r\n\<close> and \<^verbatim>\<open>\r\<close>
  translated to \<^verbatim>\<open>\n\<close>.
\<close>

theorem fallback_to_second_source:
  assumes "fs path = Some doc" and "readlines doc = pre @ m # post"
    and "pattern_match m = Some (jp, en)" and "\<not> image_follows post"
    and "no_result (wikimedia sv en)"
  shows "filter is_request (events_of sv (readlines doc)) =
           filter is_request (events_of sv pre) @ [WikimediaGet en, BooksGet en] @
           filter is_request (events_of sv post) \<and>
         new_lines_of sv (readlines doc) =
           new_lines_of sv pre @ [m] @
           (case google_books sv en of
              Returned (Some url) \<Rightarrow> if url = [] then [] else [image_line jp en url]
            | _ \<Rightarrow> []) @
           new_lines_of sv post \<and>
         concat (new_lines_of sv (readlines doc)) =
           concat (new_lines_of sv pre) @ m @
           (case google_books sv en of
              Returned (Some url) \<Rightarrow> if url = [] then [] else image_line jp en url
            | _ \<Rightarrow> []) @
           concat (new_lines_of sv post) \<and>
         subseq (readlines doc) (new_lines_of sv (readlines doc)) \<and>
         filter (\<lambda>e. \<not> suffix [10, 10] e) (new_lines_of sv (readlines doc)) = readlines doc \<and>
         ((\<forall>l\<in>set (readlines doc). \<forall>jp' en'. pattern_match l = Some (jp', en') \<longrightarrow>
              no_result (wikimedia sv en') \<and> no_result (google_books sv en')) \<longrightarrow>
          concat (new_lines_of sv (readlines doc)) = universal_newlines doc) \<and>
         concat (readlines doc) = universal_newlines doc \<and>
         process_file sv path fs =
           Inr (fs(path \<mapsto> concat (new_lines_of sv (readlines doc))),
                events_of sv (readlines doc) @
                [FileWrite path (concat (new_lines_of sv (readlines doc))),
                 Print (u ''Phase 1: Image injection complete.'')])"
proof -
  note sm = scan_marker[OF assms(3,4), of sv pre]
  have 1: "filter is_request (events_of sv (readlines doc)) =
           filter is_request (events_of sv pre) @ [WikimediaGet en, BooksGet en] @
           filter is_request (events_of sv post)"
    using sm lookup_image_requests[of sv jp en] assms(5) by (simp add: events_of_scan assms(2))
  have 2: "new_lines_of sv (readlines doc) =
           new_lines_of sv pre @ [m] @
           (case google_books sv en of
              Returned (Some url) \<Rightarrow> if url = [] then [] else [image_line jp en url]
            | _ \<Rightarrow> []) @
           new_lines_of sv post"
    using sm lookup_image_second[OF assms(5), of jp] by (simp add: new_lines_of_scan assms(2))
  have 3: "subseq (readlines doc) (new_lines_of sv (readlines doc))"
    by (simp add: new_lines_of_scan subseq_scan_lines)
  have 4: "filter (\<lambda>e. \<not> suffix [10, 10] e) (new_lines_of sv (readlines doc)) = readlines doc"
    unfolding new_lines_of_scan by (rule scan_lines_keeps_lines) (rule readlines_no_blank_end)
  have 5: "(\<forall>l\<in>set (readlines doc). \<forall>jp' en'. pattern_match l = Some (jp', en') \<longrightarrow>
              no_result (wikimedia sv en') \<and> no_result (google_books sv en')) \<longrightarrow>
          concat (new_lines_of sv (readlines doc)) = universal_newlines doc"
    using scan_lines_no_result[of "readlines doc" sv] concat_readlines[of doc]
    by (simp add: new_lines_of_scan)
  have 6: "concat (new_lines_of sv (readlines doc)) =
           concat (new_lines_of sv pre) @ m @
           (case google_books sv en of
              Returned (Some url) \<Rightarrow> if url = [] then [] else image_line jp en url
            | _ \<Rightarrow> []) @
           concat (new_lines_of sv post)"
    by (subst 2) (simp split: reply.splits option.splits)
  from 1 2 3 4 5 6 concat_readlines[of doc]
    process_file_Some[where fs = fs and path = path and doc = doc and sv = sv, OF assms(1)]
  show ?thesis by blast
qed

text \<open>
  C3 as stated fails on a document whose lines end with \<^verbatim>\<open>\r\n\<close>: both sources give no
  result for its entry and no line is inserted, yet the file written is not the document,
  since its lines now end with \<^verbatim>\<open>\n\<close>.
\<close>

theorem crlf_document_rewritten:
  "pattern_match (nobody_entry @ [10]) = Some ([0x7121, 0x540D], u ''Nobody'') \<and>
   no_result (wikimedia sample_services (u ''Nobody'')) \<and>
   no_result (google_books sample_services (u ''Nobody'')) \<and>
   map_sum id fst (process_file sample_services (u ''photo_history.md'')
      [u ''photo_history.md'' \<mapsto> crlf_text]) = Inr [u ''photo_history.md'' \<mapsto> lf_text] \<and>
   lf_text \<noteq> crlf_text"
proof -
  have n: "no_result (wikimedia sample_services (u ''Nobody''))"
    "no_result (google_books sample_services (u ''Nobody''))"
    by (simp_all add: no_result_def truthy_def sample_services_def u_def)
  have r: "readlines crlf_text =
      [u ''# Photographers'' @ [10], nobody_entry @ [10], u ''No picture.'' @ [10]]"
    by (simp add: readlines_def crlf_text_def nobody_entry_def u_def)
  have m: "pattern_match (u ''# Photographers'' @ [10]) = None"
    "pattern_match (u ''No picture.'' @ [10]) = None"
    by (simp_all add: pattern_match_def pattern_def u_def isspace_def)
  have f: "\<not> image_follows [u ''No picture.'' @ [10]]"
    by (simp add: image_follows_def startswith_def strip_def isspace_def u_def)
  have l: "fst (lookup_image sample_services [0x7121, 0x540D] (u ''Nobody'')) = []"
    using n by (rule lookup_image_none)
  have 1: "new_lines_of sample_services (readlines crlf_text) =
      [u ''# Photographers'' @ [10], nobody_entry @ [10], u ''No picture.'' @ [10]]"
    using l by (simp add: r new_lines_of_scan scan_line_def nobody_match m f split_def Let_def)
  have 2: "lf_text \<noteq> crlf_text"
    by (simp add: lf_text_def crlf_text_def u_def)
  from 1 2 n nobody_match show ?thesis
    by (simp add: process_file_Some lf_text_def crlf_text_def)
qed

text \<open>
  The document of Eikoh Hosoe: source A fails, source B finds a cover. The document of an
  unknown photographer: both sources fail, and the file is written as it was.
\<close>

theorem fallback_to_second_source_witness:
  "[u ''photo_history.md'' \<mapsto> hosoe_text] (u ''photo_history.md'') = Some hosoe_text \<and>
   readlines hosoe_text =
     [u ''# Photographers'' @ [10]] @ (hosoe_entry @ [10]) # [u ''He made pictures.'' @ [10]] \<and>
   pattern_match (hosoe_entry @ [10]) = Some ([0x7D30, 0x6C5F, 0x82F1, 0x516C], u ''Eikoh Hosoe'') \<and>
   \<not> image_follows [u ''He made pictures.'' @ [10]] \<and>
   no_result (wikimedia sample_services (u ''Eikoh Hosoe'')) \<and>
   filter is_request (events_of sample_services (readlines hosoe_text)) =
     [WikimediaGet (u ''Eikoh Hosoe''), BooksGet (u ''Eikoh Hosoe'')] \<and>
   new_lines_of sample_services (readlines hosoe_text) =
     [u ''# Photographers'' @ [10], hosoe_entry @ [10],
      u ''!['' @ [0x7D30, 0x6C5F, 0x82F1, 0x516C] @
        u '' (Eikoh Hosoe)](https://books.example/hosoe.png)'' @ [10, 10],
      u ''He made pictures.'' @ [10]] \<and>
   [u ''photo_history.md'' \<mapsto> lf_text] (u ''photo_history.md'') = Some lf_text \<and>
   readlines lf_text =
     [u ''# Photographers'' @ [10]] @ (nobody_entry @ [10]) # [u ''No picture.'' @ [10]] \<and>
   pattern_match (nobody_entry @ [10]) = Some ([0x7121, 0x540D], u ''Nobody'') \<and>
   \<not> image_follows [u ''No picture.'' @ [10]] \<and>
   no_result (wikimedia sample_services (u ''Nobody'')) \<and>
   map pattern_match (readlines lf_text) = [None, Some ([0x7121, 0x540D], u ''Nobody''), None] \<and>
   no_result (google_books sample_services (u ''Nobody'')) \<and>
   concat (new_lines_of sample_services (readlines lf_text)) = lf_text"
proof -
  have h1: "[u ''photo_history.md'' \<mapsto> hosoe_text] (u ''photo_history.md'') = Some hosoe_text"
    by simp
  have h2: "readlines hosoe_text =
     [u ''# Photographers'' @ [10]] @ (hosoe_entry @ [10]) # [u ''He made pictures.'' @ [10]]"
    by (simp add: readlines_def sample_defs)
  have h4: "\<not> image_follows [u ''He made pictures.'' @ [10]]"
    by (simp add: image_follows_def startswith_def strip_def isspace_def u_def)
  have h5: "no_result (wikimedia sample_services (u ''Eikoh Hosoe''))"
    by (simp add: no_result_def sample_defs)
  have b: "google_books sample_services (u ''Eikoh Hosoe'') =
      Returned (Some (u ''https://books.example/hosoe.png''))"
    by (simp add: sample_defs)
  from fallback_to_second_source[where fs = "[u ''photo_history.md'' \<mapsto> hosoe_text]"
      and path = "u ''photo_history.md''" and doc = hosoe_text, OF h1 h2 hosoe_match h4 h5]
  have A: "filter is_request (events_of sample_services (readlines hosoe_text)) =
     [WikimediaGet (u ''Eikoh Hosoe''), BooksGet (u ''Eikoh Hosoe'')] \<and>
   new_lines_of sample_services (readlines hosoe_text) =
     [u ''# Photographers'' @ [10], hosoe_entry @ [10],
      u ''!['' @ [0x7D30, 0x6C5F, 0x82F1, 0x516C] @
        u '' (Eikoh Hosoe)](https://books.example/hosoe.png)'' @ [10, 10],
      u ''He made pictures.'' @ [10]]"
    by (simp add: plain_lines b image_line_def) (simp add: u_def)
  have k1: "[u ''photo_history.md'' \<mapsto> lf_text] (u ''photo_history.md'') = Some lf_text"
    by simp
  have k2: "readlines lf_text =
     [u ''# Photographers'' @ [10]] @ (nobody_entry @ [10]) # [u ''No picture.'' @ [10]]"
    by (simp add: readlines_def lf_text_def nobody_entry_def u_def)
  have k4: "\<not> image_follows [u ''No picture.'' @ [10]]"
    by (simp add: image_follows_def startswith_def strip_def isspace_def u_def)
  have n: "no_result (wikimedia sample_services (u ''Nobody''))"
    "no_result (google_books sample_services (u ''Nobody''))"
    by (simp_all add: no_result_def truthy_def sample_services_def u_def)
  have m: "pattern_match (u ''# Photographers'' @ [10]) = None"
    "pattern_match (u ''No picture.'' @ [10]) = None"
    by (simp_all add: pattern_match_def pattern_def u_def isspace_def)
  have k6: "\<forall>l\<in>set (readlines lf_text). \<forall>jp' en'. pattern_match l = Some (jp', en') \<longrightarrow>
       no_result (wikimedia sample_services en') \<and> no_result (google_books sample_services en')"
    unfolding k2 using n by (simp add: m nobody_match)
  have un: "universal_newlines lf_text = lf_text"
    by (simp add: lf_text_def nobody_entry_def u_def)
  from fallback_to_second_source[where fs = "[u ''photo_history.md'' \<mapsto> lf_text]"
      and path = "u ''photo_history.md''" and doc = lf_text, OF k1 k2 nobody_match k4 n(1)] k6
  have B: "concat (new_lines_of sample_services (readlines lf_text)) = lf_text"
    unfolding un by blast
  have k7: "map pattern_match (readlines lf_text) =
      [None, Some ([0x7121, 0x540D], u ''Nobody''), None]"
    unfolding k2 by (simp add: m nobody_match)
  from h1 h2 hosoe_match h4 h5 A k1 k2 nobody_match k4 n k7 B show ?thesis by blast
qed

end
